theory Spec2Isabelle
  imports Complex_Main "HOL-Library.Stream" "HOL-Library.AList"
begin

section \<open>The scramble generators of shared/scrambleGenerators.ts\<close>

text \<open>
  The generators are pure apart from \<^verbatim>\<open>Math.random()\<close>. The random source is made
  explicit: a generator takes the stream of the numbers that the successive calls of
  \<^verbatim>\<open>Math.random()\<close> return and gives back the unread rest of it. A number drawn by
  \<^verbatim>\<open>Math.random()\<close> lies in the half-open interval from 0 to 1; the predicate
  \<open>unit_draws\<close> says so of a whole stream. Floating-point rounding is not modelled:
  the draws are real numbers. Move counts are integers, puzzle types and difficulties are
  strings, an optional parameter is an \<open>option\<close>. \<^verbatim>\<open>shuffleArray\<close>, which no generator
  calls, is left out.
\<close>

type_synonym rand = "real stream"

definition unit_draws :: "rand \<Rightarrow> bool" where
  "unit_draws rs \<longleftrightarrow> (\<forall>i. 0 \<le> rs !! i \<and> rs !! i < 1)"

text \<open>
  The only exception the generators can raise is the \<^verbatim>\<open>TypeError\<close> of calling
  \<^verbatim>\<open>.includes\<close> on \<^verbatim>\<open>undefined\<close>. An index outside its array does not raise in
  JavaScript, the read gives \<^verbatim>\<open>undefined\<close>; the model stops there with
  \<open>UndefinedElement\<close>, so that such a read is visible in the result.
\<close>

datatype error = UndefinedElement | TypeError

type_synonym 'a gen = "rand \<Rightarrow> error + ('a \<times> rand)"

definition returnR :: "'a \<Rightarrow> 'a gen" where
  "returnR x rs = Inr (x, rs)"

definition bindR :: "'a gen \<Rightarrow> ('a \<Rightarrow> 'b gen) \<Rightarrow> 'b gen" where
  "bindR m f rs = (case m rs of Inl e \<Rightarrow> Inl e | Inr (x, rs') \<Rightarrow> f x rs')"

definition throwR :: "error \<Rightarrow> 'a gen" where
  "throwR e rs = Inl e"

subsection \<open>Random primitives\<close>

definition Math_random :: "real gen" where
  "Math_random rs = Inr (shd rs, stl rs)"

text \<open>\<^verbatim>\<open>Math.floor(Math.random() * (max - min + 1)) + min\<close>\<close>

definition getRandomInt :: "int \<Rightarrow> int \<Rightarrow> int gen" where
  "getRandomInt mn mx = bindR Math_random (\<lambda>r. returnR (\<lfloor>r * of_int (mx - mn + 1)\<rfloor> + mn))"

text \<open>\<^verbatim>\<open>array[Math.floor(Math.random() * array.length)]\<close>\<close>

definition getRandomElement :: "'a list \<Rightarrow> 'a gen" where
  "getRandomElement array = bindR Math_random (\<lambda>r.
     let i = \<lfloor>r * of_nat (length array)\<rfloor> in
     if 0 \<le> i \<and> i < int (length array) then returnR (array ! nat i)
     else throwR UndefinedElement)"

text \<open>
  A \<^verbatim>\<open>for\<close> loop over the elements of an array, threading the loop's variables. The
  loop \<^verbatim>\<open>for (let i = 0; i < n; i++)\<close>, whose body leaves \<open>i\<close> alone, is the loop over
  \<open>[0..<n]\<close>.
\<close>

primrec forEach :: "'a list \<Rightarrow> ('a \<Rightarrow> 's \<Rightarrow> 's gen) \<Rightarrow> 's \<Rightarrow> 's gen" where
  "forEach [] body s = returnR s"
| "forEach (x # xs) body s = bindR (body x s) (forEach xs body)"

subsection \<open>Strings\<close>

text \<open>\<^verbatim>\<open>scramble.join(' ')\<close>\<close>

fun join :: "string list \<Rightarrow> string" where
  "join [] = []"
| "join [t] = t"
| "join (t # u # ts) = t @ '' '' @ join (u # ts)"

text \<open>
  The decimal rendering of an integer in a template literal: the digits, most significant
  first, after a minus sign for a negative number.
\<close>

definition digit :: "nat \<Rightarrow> char" where
  "digit d = ''0123456789'' ! d"

function decimal :: "nat \<Rightarrow> string" where
  "decimal n = (if 10 \<le> n then decimal (n div 10) @ [digit (n mod 10)] else [digit n])"
  by pat_completeness auto
termination
  by (relation "measure id") auto

declare decimal.simps [simp del]

definition number_text :: "int \<Rightarrow> string" where
  "number_text i = (if 0 \<le> i then decimal (nat i) else CHR ''-'' # decimal (nat (- i)))"

text \<open>
  Reading a scramble back: the space-separated tokens of a string, and the comma-separated
  values between the parentheses of a Clock pin token.
\<close>

primrec split_on :: "char \<Rightarrow> string \<Rightarrow> string list" where
  "split_on c [] = [[]]"
| "split_on c (x # xs) =
     (if x = c then [] # split_on c xs
      else (case split_on c xs of [] \<Rightarrow> [[x]] | w # ws \<Rightarrow> (x # w) # ws))"

definition tokens :: "string \<Rightarrow> string list" where
  "tokens s = filter (\<lambda>w. w \<noteq> []) (split_on (CHR '' '') s)"

definition pin_values :: "string \<Rightarrow> string list" where
  "pin_values tok = split_on (CHR '','') (butlast (tl tok))"

definition face_letter :: "string \<Rightarrow> string" where
  "face_letter tok = take 1 tok"

subsection \<open>Clock\<close>

text \<open>A value in a template literal: a missing property reads \<^verbatim>\<open>undefined\<close>.\<close>

definition template :: "string option \<Rightarrow> string" where
  "template v = (case v of None \<Rightarrow> ''undefined'' | Some s \<Rightarrow> s)"

definition clock_hours :: "string list \<Rightarrow> string list \<Rightarrow> string list gen" where
  "clock_hours positions scramble =
     forEach positions (\<lambda>pos scramble.
       bindR (getRandomInt 0 6) (\<lambda>hour.
       returnR (scramble @ [pos @ (if hour \<ge> 0 then ''+'' else '''') @ number_text hour])))
     scramble"

definition generateClockScramble :: "string gen" where
  "generateClockScramble =
     bindR (getRandomElement [''u'', ''d'']) (\<lambda>ur.
     bindR (getRandomElement [''u'', ''d'']) (\<lambda>dr.
     bindR (getRandomElement [''u'', ''d'']) (\<lambda>dl.
     bindR (getRandomElement [''u'', ''d'']) (\<lambda>ul.
     let pins = [(''UR'', ur), (''DR'', dr), (''DL'', dl), (''UL'', ul)];
         downPinCount = length (filter (\<lambda>p. p = ''d'') (map snd pins))
     in
     bindR (if downPinCount < 2 then
              bindR (getRandomElement
                       (filter (\<lambda>pos. map_of pins pos = Some ''u'') [''UR'', ''DR'', ''DL'', ''UL'']))
                (\<lambda>randomPosition. returnR (AList.update randomPosition ''d'' pins))
            else returnR pins) (\<lambda>pins.
     let scramble = [''('' @ template (map_of pins ''UR'') @ '','' @ template (map_of pins ''DR'')
                       @ '','' @ template (map_of pins ''DL'') @ '','' @ template (map_of pins ''UL'')
                       @ '')''];
         positions = [''UL'', ''UR'', ''DR'', ''DL'', ''ALL'']
     in
     bindR (clock_hours positions scramble) (\<lambda>scramble.
     bindR (clock_hours positions (scramble @ [''y2''])) (\<lambda>scramble.
     returnR (join scramble))))))))"

subsection \<open>Move tables and loop variables\<close>

abbreviation prime :: string where
  "prime \<equiv> [CHR 0x27]"

definition opposites :: "string \<rightharpoonup> string" where
  "opposites = map_of
     [(''R'', ''L''), (''L'', ''R''), (''U'', ''D''), (''D'', ''U''), (''F'', ''B''), (''B'', ''F'')]"

definition sameAxis :: "string \<rightharpoonup> string list" where
  "sameAxis = map_of
     [(''R'', [''R'', ''L'']), (''L'', [''R'', ''L'']),
      (''U'', [''U'', ''D'']), (''D'', [''U'', ''D'']),
      (''F'', [''F'', ''B'']), (''B'', [''F'', ''B''])]"

record tracking =
  scramble :: "string list"
  lastMove :: string
  secondLastMove :: string

definition push_move :: "tracking \<Rightarrow> string \<Rightarrow> string \<Rightarrow> tracking" where
  "push_move st face modifier =
     \<lparr>scramble = scramble st @ [face @ modifier], lastMove = face, secondLastMove = lastMove st\<rparr>"

definition start :: tracking where
  "start = \<lparr>scramble = [], lastMove = '''', secondLastMove = ''''\<rparr>"

text \<open>
  \<^verbatim>\<open>Math.random() < 0.4 ? '2' : (Math.random() < 0.5 ? '\'' : '')\<close>: the second number
  is drawn only when the first is at least 0.4.
\<close>

definition biased_modifier :: "string gen" where
  "biased_modifier =
     bindR Math_random (\<lambda>r. if r < 4 / 10 then returnR ''2''
       else bindR Math_random (\<lambda>r'. returnR (if r' < 5 / 10 then prime else '''')))"

text \<open>
  The bias path shared by the 3x3 and 2x2 loops: a pair holding the last move is drawn, its
  other face is taken when it is among the available moves and a further draw is below 0.6.
  \<open>None\<close> is the fall-through to the ordinary selection.
\<close>

definition preferred_move :: "string list list \<Rightarrow> string \<Rightarrow> string list \<Rightarrow> (string \<times> string) option gen" where
  "preferred_move pairs previous availableMoves =
     (let preferredPairs = filter (\<lambda>pair. previous \<in> set pair) pairs in
      if length preferredPairs > 0 then
        bindR (getRandomElement preferredPairs) (\<lambda>randomPair.
          case find (\<lambda>move. move \<noteq> previous) randomPair of
            None \<Rightarrow> returnR None
          | Some preferredMove \<Rightarrow>
              if preferredMove \<noteq> '''' \<and> preferredMove \<in> set availableMoves then
                bindR Math_random (\<lambda>r.
                  if r < 6 / 10 then
                    bindR biased_modifier (\<lambda>modifier. returnR (Some (preferredMove, modifier)))
                  else returnR None)
              else returnR None)
      else returnR None)"

text \<open>
  \<^verbatim>\<open>if (secondLastMove && lastMove) { if (secondLastMove === availableMoves.find(...)) ... }\<close>
  followed by the fallback for an empty list.
\<close>

definition drop_second_last :: "string list \<Rightarrow> tracking \<Rightarrow> string list \<Rightarrow> string list" where
  "drop_second_last moves st availableMoves =
     (let availableMoves =
        (if secondLastMove st \<noteq> '''' \<and> lastMove st \<noteq> '''' then
           (if find (\<lambda>m. m = secondLastMove st) availableMoves = Some (secondLastMove st)
            then filter (\<lambda>move. move \<noteq> secondLastMove st) availableMoves
            else availableMoves)
         else availableMoves)
      in if length availableMoves = 0 then filter (\<lambda>move. move \<noteq> lastMove st) moves
         else availableMoves)"

subsection \<open>3x3\<close>

definition step3x3 :: "nat \<Rightarrow> tracking \<Rightarrow> tracking gen" where
  "step3x3 i st =
     (let moves = [''R'', ''L'', ''U'', ''D'', ''F'', ''B''] in
      bindR (if lastMove st \<noteq> '''' then
               (case sameAxis (lastMove st) of
                  None \<Rightarrow> throwR TypeError
                | Some axis \<Rightarrow> returnR (filter (\<lambda>move. move \<notin> set axis) moves))
             else returnR moves) (\<lambda>availableMoves.
      let availableMoves = drop_second_last moves st availableMoves;
          adjacentPairs = [[''R'', ''F''], [''R'', ''U''], [''U'', ''F''],
                           [''L'', ''B''], [''L'', ''D''], [''D'', ''B'']]
      in
      bindR (if i > 0 \<and> i mod 5 = 0 \<and> lastMove st \<noteq> '''' then
               preferred_move adjacentPairs (lastMove st) availableMoves
             else returnR None) (\<lambda>preferred.
      case preferred of
        Some (preferredMove, modifier) \<Rightarrow> returnR (push_move st preferredMove modifier)
      | None \<Rightarrow>
          bindR (getRandomElement availableMoves) (\<lambda>face.
          bindR Math_random (\<lambda>r.
          let modifier = (if r < 33 / 100 then '''' else if r < 66 / 100 then prime else ''2'')
          in returnR (push_move st face modifier))))))"

definition generate3x3Scramble :: "string gen" where
  "generate3x3Scramble =
     bindR (forEach [0..<20] step3x3 start) (\<lambda>st. returnR (join (scramble st)))"

definition generate3x3BLDScramble :: "string gen" where
  "generate3x3BLDScramble = generate3x3Scramble"

definition generate3x3OHScramble :: "string gen" where
  "generate3x3OHScramble = generate3x3Scramble"

subsection \<open>2x2\<close>

definition step2x2 :: "nat \<Rightarrow> tracking \<Rightarrow> tracking gen" where
  "step2x2 i st =
     (let moves = [''R'', ''U'', ''F''];
          hardPatterns = [[''R'', ''U''], [''R'', ''F''], [''U'', ''F'']];
          availableMoves =
            (if lastMove st \<noteq> '''' then
               (case sameAxis (lastMove st) of
                  None \<Rightarrow> moves
                | Some axis \<Rightarrow> filter (\<lambda>move. move \<notin> set axis) moves)
             else moves);
          availableMoves = drop_second_last moves st availableMoves
      in
      bindR (if i > 0 \<and> i mod 3 = 0 \<and> lastMove st \<noteq> '''' then
               preferred_move hardPatterns (lastMove st) availableMoves
             else returnR None) (\<lambda>preferred.
      case preferred of
        Some (nextMove, modifier) \<Rightarrow> returnR (push_move st nextMove modifier)
      | None \<Rightarrow>
          bindR (getRandomElement availableMoves) (\<lambda>face.
          bindR Math_random (\<lambda>r.
          let modifier = (if r < 3 / 10 then '''' else if r < 65 / 100 then prime else ''2'')
          in returnR (push_move st face modifier)))))"

definition generate2x2Scramble :: "string gen" where
  "generate2x2Scramble =
     bindR (getRandomInt 9 11) (\<lambda>moveCount.
     bindR (forEach [0..<nat moveCount] step2x2 start) (\<lambda>st.
     returnR (join (scramble st))))"

subsection \<open>Pyraminx\<close>

text \<open>
  The entries of \<^verbatim>\<open>hardPatterns\<close> are two-element arrays, modelled as pairs: the inner
  loop over a pattern draws one modifier for each of its two moves, \<^verbatim>\<open>pattern[pattern.length - 2]\<close>
  is its first move and \<^verbatim>\<open>i += pattern.length - 1\<close> skips one index. A step returns the
  number of indices it skipped with the new loop variables.
\<close>

definition pyraminx_step :: "int \<Rightarrow> nat \<Rightarrow> tracking \<Rightarrow> (nat \<times> tracking) gen" where
  "pyraminx_step moveCount i st =
     (let regularMoves = [''R'', ''L'', ''U'', ''B''];
          modifiers = ['''', prime];
          antiRotation = map_of [(''R'', ''L''), (''L'', ''R''), (''U'', ''B''), (''B'', ''U'')];
          hardPatterns = [(''R'', ''L''), (''U'', ''B''), (''R'', ''U''), (''L'', ''B'')]
      in
      bindR (if i mod 3 = 0 \<and> int i + 1 < moveCount then
               bindR (getRandomElement hardPatterns) (\<lambda>pattern.
                 if fst pattern \<noteq> lastMove st then
                   bindR (getRandomElement modifiers) (\<lambda>mod0.
                   bindR (getRandomElement modifiers) (\<lambda>mod1.
                   returnR (Some (1,
                     \<lparr>scramble = scramble st @ [fst pattern @ mod0, snd pattern @ mod1],
                      lastMove = snd pattern, secondLastMove = fst pattern\<rparr>))))
                 else returnR None)
             else returnR None) (\<lambda>applied.
      case applied of
        Some skipped \<Rightarrow> returnR skipped
      | None \<Rightarrow>
          let availableMoves = filter (\<lambda>move. move \<noteq> lastMove st) regularMoves;
              availableMoves =
                (if secondLastMove st \<noteq> '''' \<and> lastMove st \<noteq> ''''
                    \<and> Some (secondLastMove st) = antiRotation (lastMove st)
                 then filter (\<lambda>move. move \<noteq> secondLastMove st) availableMoves
                 else availableMoves);
              availableMoves =
                (if length availableMoves = 0
                 then filter (\<lambda>move. move \<noteq> lastMove st) regularMoves
                 else availableMoves)
          in
          bindR (getRandomElement availableMoves) (\<lambda>move.
          bindR Math_random (\<lambda>r.
          let modifier = (if r < 6 / 10 then prime else '''')
          in returnR (0, push_move st move modifier)))))"

function pyraminx_loop :: "int \<Rightarrow> nat \<Rightarrow> tracking \<Rightarrow> tracking gen" where
  "pyraminx_loop moveCount i st rs =
     (if int i < moveCount then
        (case pyraminx_step moveCount i st rs of
           Inl e \<Rightarrow> Inl e
         | Inr ((skipped, st'), rs') \<Rightarrow> pyraminx_loop moveCount (i + skipped + 1) st' rs')
      else Inr (st, rs))"
  by pat_completeness auto
termination
  by (relation "measure (\<lambda>(moveCount, i, st, rs). nat (moveCount - int i))") auto

declare pyraminx_loop.simps [simp del]

text \<open>The tip loop; \<^verbatim>\<open>break\<close> leaves it when no tip is left.\<close>

primrec tips_loop :: "nat \<Rightarrow> string list \<Rightarrow> string set \<Rightarrow> string list gen" where
  "tips_loop 0 sc usedTips = returnR sc"
| "tips_loop (Suc n) sc usedTips =
     (let availableTips = filter (\<lambda>tip. tip \<notin> usedTips) [''r'', ''l'', ''u'', ''b''] in
      if length availableTips = 0 then returnR sc
      else
        bindR (getRandomElement availableTips) (\<lambda>tip.
        bindR (getRandomElement ['''', prime]) (\<lambda>modifier.
        tips_loop n (sc @ [tip @ modifier]) (insert tip usedTips))))"

definition pyraminx_base :: "tracking gen" where
  "pyraminx_base = bindR (getRandomInt 8 10) (\<lambda>moveCount. pyraminx_loop moveCount 0 start)"

definition generatePyraminxScramble :: "string gen" where
  "generatePyraminxScramble =
     bindR pyraminx_base (\<lambda>st.
     bindR (getRandomInt 0 2) (\<lambda>tipCount.
     bindR (tips_loop (nat tipCount) (scramble st) {}) (\<lambda>scramble.
     returnR (join scramble))))"

subsection \<open>Skewb\<close>

text \<open>\<^verbatim>\<open>lastCorner\<close> and \<^verbatim>\<open>secondLastCorner\<close> are the fields \<open>lastMove\<close> and \<open>secondLastMove\<close>.\<close>

definition stepSkewb :: "tracking \<Rightarrow> tracking gen" where
  "stepSkewb st =
     (let corners = [''R'', ''U'', ''L'', ''B''];
          adjacentCorners = map_of
            [(''R'', [''U'', ''L'', ''B'']), (''U'', [''R'', ''L'', ''B'']),
             (''L'', [''R'', ''U'', ''B'']), (''B'', [''R'', ''U'', ''L''])];
          availableCorners = filter (\<lambda>corner. corner \<noteq> lastMove st) corners
      in
      bindR (case (if lastMove st \<noteq> '''' then adjacentCorners (lastMove st) else None) of
               None \<Rightarrow> returnR None
             | Some adjacent \<Rightarrow>
                 bindR Math_random (\<lambda>r.
                   if r < 7 / 10 then
                     (let adjacentOptions = filter (\<lambda>corner. corner \<noteq> secondLastMove st) adjacent in
                      if length adjacentOptions > 0 then
                        bindR (getRandomElement adjacentOptions) (\<lambda>corner.
                        bindR Math_random (\<lambda>r'.
                        returnR (Some (corner, if r' < 55 / 100 then prime else ''''))))
                      else returnR None)
                   else returnR None)) (\<lambda>adjacent.
      case adjacent of
        Some (corner, modifier) \<Rightarrow> returnR (push_move st corner modifier)
      | None \<Rightarrow>
          bindR (getRandomElement availableCorners) (\<lambda>corner.
          bindR Math_random (\<lambda>r.
          returnR (push_move st corner (if r < 55 / 100 then prime else ''''))))))"

definition generateSkewbScramble :: "string gen" where
  "generateSkewbScramble =
     bindR (forEach [0..<9] (\<lambda>i. stepSkewb) start) (\<lambda>st. returnR (join (scramble st)))"

subsection \<open>Custom generators\<close>

text \<open>
  The custom generators draw a face again and again until one is accepted. The loop need not
  end: \<open>None\<close> is the run that never returns.
\<close>

type_synonym 'a pgen = "rand \<Rightarrow> (error + ('a \<times> rand)) option"

partial_function (option) doWhile :: "'a list \<Rightarrow> ('a \<Rightarrow> bool) \<Rightarrow> 'a pgen" where
  "doWhile faces again rs =
     (case getRandomElement faces rs of
        Inl e \<Rightarrow> Some (Inl e)
      | Inr (face, rs') \<Rightarrow> if again face then doWhile faces again rs' else Some (Inr (face, rs')))"

primrec repeatP :: "nat \<Rightarrow> ('s \<Rightarrow> 's pgen) \<Rightarrow> 's \<Rightarrow> 's pgen" where
  "repeatP 0 body s rs = Some (Inr (s, rs))"
| "repeatP (Suc n) body s rs =
     (case body s rs of
        None \<Rightarrow> None
      | Some (Inl e) \<Rightarrow> Some (Inl e)
      | Some (Inr (s', rs')) \<Rightarrow> repeatP n body s' rs')"

record custom_tracking =
  moves_out :: "string list"
  lastFace :: string
  lastAxis :: string

definition custom_start :: custom_tracking where
  "custom_start = \<lparr>moves_out = [], lastFace = '''', lastAxis = ''''\<rparr>"

definition custom3x3_alphabet :: "string \<Rightarrow> string list \<times> string list" where
  "custom3x3_alphabet difficulty =
     (let faces = [''R'', ''L'', ''U'', ''D'', ''F'', ''B''] in
      if difficulty = ''easy'' then (faces, ['''', prime])
      else if difficulty = ''hard'' then
        (faces @ [''M'', ''E'', ''S''], ['''', prime, ''2'', ''w'', ''w'' @ prime, ''w2''])
      else (faces, ['''', prime, ''2'']))"

definition again3x3 :: "string \<Rightarrow> string \<Rightarrow> string \<Rightarrow> bool" where
  "again3x3 lastF lastA face \<longleftrightarrow>
     face = lastF \<or> opposites lastF = Some face \<or>
     (lastA \<noteq> '''' \<and> (case sameAxis face of None \<Rightarrow> False | Some axis \<Rightarrow> lastA \<in> set axis))"

definition custom3x3_step :: "string list \<Rightarrow> string list \<Rightarrow> custom_tracking \<Rightarrow> custom_tracking pgen" where
  "custom3x3_step faces modifiers st rs =
     (case doWhile faces (again3x3 (lastFace st) (lastAxis st)) rs of
        None \<Rightarrow> None
      | Some (Inl e) \<Rightarrow> Some (Inl e)
      | Some (Inr (face, rs')) \<Rightarrow>
          Some (bindR (getRandomElement modifiers) (\<lambda>modifier.
            returnR \<lparr>moves_out = moves_out st @ [face @ modifier], lastFace = face,
                     lastAxis = (if face \<in> set [''R'', ''L'', ''U'', ''D'', ''F'', ''B'']
                                 then face else lastAxis st)\<rparr>) rs'))"

definition finish :: "('s \<Rightarrow> string list) \<Rightarrow> (error + ('s \<times> rand)) option \<Rightarrow> (error + (string \<times> rand)) option" where
  "finish out res =
     (case res of
        None \<Rightarrow> None
      | Some (Inl e) \<Rightarrow> Some (Inl e)
      | Some (Inr (st, rs')) \<Rightarrow> Some (Inr (join (out st), rs')))"

definition generateCustom3x3Scramble :: "int \<Rightarrow> string \<Rightarrow> string pgen" where
  "generateCustom3x3Scramble moves difficulty rs =
     (case custom3x3_alphabet difficulty of (faces, modifiers) \<Rightarrow>
        finish moves_out (repeatP (nat moves) (custom3x3_step faces modifiers) custom_start rs))"

definition custom2x2_step :: "string list \<Rightarrow> string list \<Rightarrow> custom_tracking \<Rightarrow> custom_tracking pgen" where
  "custom2x2_step faces modifiers st rs =
     (case doWhile faces (\<lambda>face. face = lastFace st) rs of
        None \<Rightarrow> None
      | Some (Inl e) \<Rightarrow> Some (Inl e)
      | Some (Inr (face, rs')) \<Rightarrow>
          Some (bindR (getRandomElement modifiers) (\<lambda>modifier.
            returnR (st\<lparr>moves_out := moves_out st @ [face @ modifier], lastFace := face\<rparr>)) rs'))"

definition custom2x2_params :: "int \<Rightarrow> string \<Rightarrow> int \<times> string list" where
  "custom2x2_params moves difficulty =
     (if difficulty = ''easy'' then (min moves 8, ['''', prime])
      else if difficulty = ''hard'' then (max moves 11, ['''', prime, ''2''])
      else (min (max moves 9) 11, ['''', prime, ''2'']))"

definition generateCustom2x2Scramble :: "int \<Rightarrow> string \<Rightarrow> string pgen" where
  "generateCustom2x2Scramble moves difficulty rs =
     (case custom2x2_params moves difficulty of (moves, modifiers) \<Rightarrow>
        finish moves_out
          (repeatP (nat moves) (custom2x2_step [''R'', ''U'', ''F''] modifiers) custom_start rs))"

subsection \<open>Dispatch\<close>

text \<open>\<^verbatim>\<open>moves || d\<close>: an absent count and the count 0 both give the default.\<close>

definition or_default :: "int option \<Rightarrow> int \<Rightarrow> int" where
  "or_default moves d = (case moves of None \<Rightarrow> d | Some m \<Rightarrow> if m = 0 then d else m)"

definition generateCustomScramble :: "string \<Rightarrow> int option \<Rightarrow> string option \<Rightarrow> string pgen" where
  "generateCustomScramble cubeType moves difficulty rs =
     (let difficulty = (case difficulty of None \<Rightarrow> ''medium'' | Some d \<Rightarrow> d) in
      if cubeType = ''2x2'' then generateCustom2x2Scramble (or_default moves 10) difficulty rs
      else if cubeType = ''3x3'' then generateCustom3x3Scramble (or_default moves 20) difficulty rs
      else if cubeType = ''3x3 BLD'' then generateCustom3x3Scramble (or_default moves 20) difficulty rs
      else if cubeType = ''3x3 OH'' then generateCustom3x3Scramble (or_default moves 20) difficulty rs
      else if cubeType = ''Pyraminx'' then Some (generatePyraminxScramble rs)
      else if cubeType = ''Skewb'' then Some (generateSkewbScramble rs)
      else if cubeType = ''Clock'' then Some (generateClockScramble rs)
      else generateCustom3x3Scramble (or_default moves 20) difficulty rs)"

definition generateScramble :: "string \<Rightarrow> string gen" where
  "generateScramble cubeType =
     (if cubeType = ''3x3'' then generate3x3Scramble
      else if cubeType = ''2x2'' then generate2x2Scramble
      else if cubeType = ''Pyraminx'' then generatePyraminxScramble
      else if cubeType = ''Skewb'' then generateSkewbScramble
      else if cubeType = ''Clock'' then generateClockScramble
      else if cubeType = ''3x3 BLD'' then generate3x3BLDScramble
      else if cubeType = ''3x3 OH'' then generate3x3OHScramble
      else generate3x3Scramble)"

subsection \<open>Notions used by the statements\<close>

text \<open>
  A generator succeeds with \<open>P\<close> when, on every stream of draws from the unit interval, it
  returns a value satisfying \<open>P\<close> together with a suffix of the stream it was given.
\<close>

definition succeeds :: "'a gen \<Rightarrow> ('a \<Rightarrow> bool) \<Rightarrow> bool" where
  "succeeds m P \<longleftrightarrow> (\<forall>rs. unit_draws rs \<longrightarrow> (\<exists>x n. m rs = Inr (x, sdrop n rs) \<and> P x))"

text \<open>A token that survives \<open>join\<close> and \<open>tokens\<close>: not empty and free of spaces.\<close>

definition wf_token :: "string \<Rightarrow> bool" where
  "wf_token t \<longleftrightarrow> t \<noteq> [] \<and> CHR '' '' \<notin> set t"

text \<open>
  Two faces are on the same axis when the table \<open>sameAxis\<close> lists the second under the
  first. The loops of the 3x3 and 2x2 generators keep the invariant \<open>stepwise R k\<close>: \<open>k\<close>
  tokens have been pushed, \<open>lastMove\<close> and \<open>secondLastMove\<close> are the face letters of the
  last two of them (the empty string where there is none), and every token stands in the
  relation \<open>R\<close> to the two before it. \<open>ok3x3\<close> and \<open>ok2x2\<close> are the relations of the two
  generators, \<open>shape3x3\<close> and \<open>shape2x2\<close> what they give for the finished list of tokens.
\<close>

definition on_same_axis :: "string \<Rightarrow> string \<Rightarrow> bool" where
  "on_same_axis a b \<longleftrightarrow> (case sameAxis a of None \<Rightarrow> False | Some axis \<Rightarrow> b \<in> set axis)"

definition face_before :: "string list \<Rightarrow> nat \<Rightarrow> nat \<Rightarrow> string" where
  "face_before ts i d = (if d \<le> i then face_letter (ts ! (i - d)) else '''')"

definition stepwise :: "(string \<Rightarrow> string \<Rightarrow> string \<Rightarrow> bool) \<Rightarrow> nat \<Rightarrow> tracking \<Rightarrow> bool" where
  "stepwise R k st \<longleftrightarrow>
     length (scramble st) = k \<and> list_all wf_token (scramble st) \<and>
     lastMove st = face_before (scramble st) k 1 \<and>
     secondLastMove st = face_before (scramble st) k 2 \<and>
     (\<forall>i<k. R (face_before (scramble st) i 2) (face_before (scramble st) i 1)
               (face_letter (scramble st ! i)))"

definition ok3x3 :: "string \<Rightarrow> string \<Rightarrow> string \<Rightarrow> bool" where
  "ok3x3 before previous face \<longleftrightarrow>
     face \<in> set [''R'', ''L'', ''U'', ''D'', ''F'', ''B''] \<and> \<not> on_same_axis previous face \<and> face \<noteq> before"

definition shape3x3 :: "string list \<Rightarrow> bool" where
  "shape3x3 ts \<longleftrightarrow>
     length ts = 20 \<and>
     (\<forall>i. Suc i < length ts \<longrightarrow> \<not> on_same_axis (face_letter (ts ! i)) (face_letter (ts ! Suc i))) \<and>
     (\<forall>i. i + 2 < length ts \<longrightarrow> face_letter (ts ! (i + 2)) \<noteq> face_letter (ts ! i))"

definition ok2x2 :: "string \<Rightarrow> string \<Rightarrow> string \<Rightarrow> bool" where
  "ok2x2 before previous face \<longleftrightarrow>
     face \<in> set [''R'', ''U'', ''F''] \<and> face \<noteq> previous \<and> face \<noteq> before"

definition third_face :: "string \<Rightarrow> string \<Rightarrow> string" where
  "third_face a b = hd (filter (\<lambda>m. m \<noteq> a \<and> m \<noteq> b) [''R'', ''U'', ''F''])"

definition shape2x2 :: "string list \<Rightarrow> bool" where
  "shape2x2 ts \<longleftrightarrow>
     9 \<le> length ts \<and> length ts \<le> 11 \<and>
     (\<forall>i<length ts. face_letter (ts ! i) \<in> set [''R'', ''U'', ''F'']) \<and>
     (\<forall>i. Suc i < length ts \<longrightarrow> face_letter (ts ! Suc i) \<noteq> face_letter (ts ! i)) \<and>
     (\<forall>i. i + 2 < length ts \<longrightarrow>
        face_letter (ts ! (i + 2)) \<noteq> face_letter (ts ! i) \<and>
        face_letter (ts ! (i + 2)) = third_face (face_letter (ts ! i)) (face_letter (ts ! (i + 1))))"


text \<open>
  For the custom generators, whose rejection loops need not end: a stream is fair for \<open>m\<close>
  when each of the \<open>m\<close> indices a draw can select from an array of length \<open>m\<close> is
  selected again in every suffix of the stream. \<open>psafe\<close> says that a run which returns
  returns a value satisfying \<open>P\<close> and no error; \<open>pdefined\<close> says that the run returns
  on every fair stream.
\<close>

definition fair :: "nat \<Rightarrow> rand \<Rightarrow> bool" where
  "fair m rs \<longleftrightarrow> (\<forall>n j. j < m \<longrightarrow> (\<exists>k. \<lfloor>rs !! (n + k) * real m\<rfloor> = int j))"

definition psafe :: "'a pgen \<Rightarrow> ('a \<Rightarrow> bool) \<Rightarrow> bool" where
  "psafe m P \<longleftrightarrow>
     (\<forall>rs r. unit_draws rs \<longrightarrow> m rs = Some r \<longrightarrow> (\<exists>x n. r = Inr (x, sdrop n rs) \<and> P x))"

definition pdefined :: "'a pgen \<Rightarrow> nat \<Rightarrow> bool" where
  "pdefined m f \<longleftrightarrow> (\<forall>rs. unit_draws rs \<longrightarrow> fair f rs \<longrightarrow> m rs \<noteq> None)"

definition over_alphabet :: "string list \<Rightarrow> string list \<Rightarrow> string \<Rightarrow> bool" where
  "over_alphabet faces modifiers t \<longleftrightarrow> (\<exists>f\<in>set faces. \<exists>m\<in>set modifiers. t = f @ m)"

definition custom_inv :: "string list \<Rightarrow> string list \<Rightarrow> nat \<Rightarrow> custom_tracking \<Rightarrow> bool" where
  "custom_inv faces modifiers k st \<longleftrightarrow>
     length (moves_out st) = k \<and> list_all (over_alphabet faces modifiers) (moves_out st)"

text \<open>The stream that runs through the draws \<open>0/m\<close>, \<open>1/m\<close>, ... again and again.\<close>

definition ramp :: "nat \<Rightarrow> rand" where
  "ramp m = cycle (map (\<lambda>k. real k / real m) [0..<m])"

text \<open>The seven labels of \<^verbatim>\<open>cubeTypes\<close>, and the default of the difficulty parameter.\<close>

definition labels :: "string list" where
  "labels = [''2x2'', ''3x3'', ''3x3 BLD'', ''3x3 OH'', ''Pyraminx'', ''Skewb'', ''Clock'']"

definition or_medium :: "string option \<Rightarrow> string" where
  "or_medium difficulty = (case difficulty of None \<Rightarrow> ''medium'' | Some d \<Rightarrow> d)"

section \<open>Proofs\<close>

subsection \<open>Draws and the generator monad\<close>

lemma unit_draws_shd: "unit_draws rs \<Longrightarrow> 0 \<le> shd rs \<and> shd rs < 1"
  unfolding unit_draws_def by (metis snth.simps(1))

lemma unit_draws_sdrop: "unit_draws rs \<Longrightarrow> unit_draws (sdrop n rs)"
  unfolding unit_draws_def by (simp add: sdrop_snth)

lemma unit_draws_stl: "unit_draws rs \<Longrightarrow> unit_draws (stl rs)"
  using unit_draws_sdrop [of rs 1] by simp

lemma unit_draws_SCons: "unit_draws (r ## rs) \<longleftrightarrow> 0 \<le> r \<and> r < 1 \<and> unit_draws rs"
  unfolding unit_draws_def
  apply (rule iffI)
  apply (metis snth.simps(1) snth.simps(2) stream.sel(1) stream.sel(2))
  by (metis not0_implies_Suc snth.simps(1) snth.simps(2) stream.sel(1) stream.sel(2))

lemma unit_draws_sconst: "unit_draws (sconst r) \<longleftrightarrow> 0 \<le> r \<and> r < 1"
  unfolding unit_draws_def by simp

lemma succeedsI: "(\<And>rs. unit_draws rs \<Longrightarrow> \<exists>x n. m rs = Inr (x, sdrop n rs) \<and> P x) \<Longrightarrow> succeeds m P"
  unfolding succeeds_def by blast

lemma succeedsD: "succeeds m P \<Longrightarrow> unit_draws rs \<Longrightarrow> \<exists>x n. m rs = Inr (x, sdrop n rs) \<and> P x"
  unfolding succeeds_def by blast

lemma succeeds_returnR: "P x \<Longrightarrow> succeeds (returnR x) P"
  by (rule succeedsI) (metis returnR_def sdrop.simps(1))

lemma succeeds_bindR:
  assumes m: "succeeds m P" and f: "\<And>x. P x \<Longrightarrow> succeeds (f x) Q"
  shows "succeeds (bindR m f) Q"
proof (rule succeedsI)
  fix rs assume u: "unit_draws rs"
  from succeedsD [OF m u] obtain x n where 1: "m rs = Inr (x, sdrop n rs)" and px: "P x"
    by blast
  from succeedsD [OF f [OF px] unit_draws_sdrop [OF u, of n]]
  obtain y k where 2: "f x (sdrop n rs) = Inr (y, sdrop k (sdrop n rs))" and qy: "Q y"
    by blast
  have "bindR m f rs = Inr (y, sdrop (n + k) rs)"
    using 1 2 by (simp add: bindR_def sdrop_add)
  with qy show "\<exists>y n. bindR m f rs = Inr (y, sdrop n rs) \<and> Q y"
    by blast
qed

lemma succeeds_weaken: "succeeds m P \<Longrightarrow> (\<And>x. P x \<Longrightarrow> Q x) \<Longrightarrow> succeeds m Q"
  unfolding succeeds_def by blast

lemma succeeds_Math_random: "succeeds Math_random (\<lambda>r. 0 \<le> r \<and> r < 1)"
proof (rule succeedsI)
  fix rs assume "unit_draws rs"
  then have "0 \<le> shd rs \<and> shd rs < 1" by (rule unit_draws_shd)
  moreover have "Math_random rs = Inr (shd rs, sdrop 1 rs)" by (simp add: Math_random_def)
  ultimately show "\<exists>x n. Math_random rs = Inr (x, sdrop n rs) \<and> 0 \<le> x \<and> x < 1" by blast
qed

lemma floor_scale_bounds:
  fixes r :: real
  assumes "0 \<le> r" "r < 1" "0 < n"
  shows "0 \<le> \<lfloor>r * of_nat n\<rfloor> \<and> \<lfloor>r * of_nat n\<rfloor> < int n"
proof -
  have "0 \<le> r * of_nat n" using assms by simp
  moreover have "r * of_nat n < of_nat n" using assms by simp
  ultimately show ?thesis by (simp add: floor_less_iff)
qed

lemma succeeds_getRandomElement:
  assumes "array \<noteq> []"
  shows "succeeds (getRandomElement array) (\<lambda>x. x \<in> set array)"
  unfolding getRandomElement_def
proof (rule succeeds_bindR [OF succeeds_Math_random])
  fix r :: real assume r: "0 \<le> r \<and> r < 1"
  from assms have "0 < length array" by simp
  with r have b: "0 \<le> \<lfloor>r * of_nat (length array)\<rfloor> \<and> \<lfloor>r * of_nat (length array)\<rfloor> < int (length array)"
    by (simp add: floor_scale_bounds)
  then have "array ! nat \<lfloor>r * of_nat (length array)\<rfloor> \<in> set array"
    by (simp add: nat_less_iff)
  with b show "succeeds (let i = \<lfloor>r * of_nat (length array)\<rfloor> in
     if 0 \<le> i \<and> i < int (length array) then returnR (array ! nat i)
     else throwR UndefinedElement) (\<lambda>x. x \<in> set array)"
    by (simp add: Let_def succeeds_returnR)
qed

lemma succeeds_getRandomInt:
  assumes "mn \<le> mx"
  shows "succeeds (getRandomInt mn mx) (\<lambda>k. mn \<le> k \<and> k \<le> mx)"
  unfolding getRandomInt_def
proof (rule succeeds_bindR [OF succeeds_Math_random])
  fix r :: real assume r: "0 \<le> r \<and> r < 1"
  have "0 < nat (mx - mn + 1)" using assms by simp
  from floor_scale_bounds [OF conjunct1 [OF r] conjunct2 [OF r] this]
  have "0 \<le> \<lfloor>r * of_int (mx - mn + 1)\<rfloor> \<and> \<lfloor>r * of_int (mx - mn + 1)\<rfloor> < mx - mn + 1"
    using assms by simp
  then show "succeeds (returnR (\<lfloor>r * of_int (mx - mn + 1)\<rfloor> + mn)) (\<lambda>k. mn \<le> k \<and> k \<le> mx)"
    by (intro succeeds_returnR) linarith
qed

lemma succeeds_forEach:
  assumes "I 0 s"
    and "\<And>k s. k < length xs \<Longrightarrow> I k s \<Longrightarrow> succeeds (body (xs ! k) s) (I (Suc k))"
  shows "succeeds (forEach xs body s) (I (length xs))"
  using assms
proof (induction xs arbitrary: I s)
  case Nil
  then show ?case by (simp add: succeeds_returnR)
next
  case (Cons x xs)
  have step: "succeeds (body x s) (I (Suc 0))"
    using Cons.prems(2) [of 0 s] Cons.prems(1) by simp
  have rest: "succeeds (forEach xs body s') ((\<lambda>k. I (Suc k)) (length xs))" if "I (Suc 0) s'" for s'
  proof (rule Cons.IH [where I = "\<lambda>k. I (Suc k)"])
    show "I (Suc 0) s'" by (rule that)
  next
    fix k s assume "k < length xs" "I (Suc k) s"
    then show "succeeds (body (xs ! k) s) (I (Suc (Suc k)))"
      using Cons.prems(2) [of "Suc k" s] by simp
  qed
  show ?case
    by (simp, rule succeeds_bindR [OF step]) (use rest in simp)
qed

subsection \<open>Joining and splitting\<close>

lemma split_on_not_Nil: "split_on c s \<noteq> []"
  by (induction s) (auto split: list.splits)

lemma split_on_no_sep: "c \<notin> set t \<Longrightarrow> split_on c t = [t]"
  by (induction t) auto

lemma split_on_append_sep: "c \<notin> set t \<Longrightarrow> split_on c (t @ c # s) = t # split_on c s"
  by (induction t) auto

lemma tokens_join: "list_all wf_token ts \<Longrightarrow> tokens (join ts) = ts"
proof (induction ts rule: join.induct)
  case 1
  then show ?case by (simp add: tokens_def)
next
  case (2 t)
  then show ?case by (simp add: tokens_def wf_token_def split_on_no_sep)
next
  case (3 t u ts)
  then have "tokens (join (u # ts)) = u # ts" by simp
  moreover have "split_on (CHR '' '') (join (t # u # ts)) = t # split_on (CHR '' '') (join (u # ts))"
    using 3(2) by (simp add: wf_token_def split_on_append_sep)
  ultimately show ?case using 3(2) by (simp add: tokens_def wf_token_def)
qed

subsection \<open>Clock\<close>

lemma digit_not_space: "d < 10 \<Longrightarrow> digit d \<noteq> CHR '' ''"
proof -
  assume "d < 10"
  then have "digit d \<in> set ''0123456789''" unfolding digit_def by (intro nth_mem) simp
  then show ?thesis by auto
qed

lemma decimal_no_space: "CHR '' '' \<notin> set (decimal n)"
proof (induction n rule: decimal.induct)
  case (1 n)
  show ?case
  proof (cases "10 \<le> n")
    case True
    then show ?thesis using 1 digit_not_space [of "n mod 10"]
      by (subst decimal.simps) simp
  next
    case False
    then show ?thesis using digit_not_space [of n] by (subst decimal.simps) simp
  qed
qed

lemma number_text_no_space: "CHR '' '' \<notin> set (number_text i)"
  by (simp add: number_text_def decimal_no_space)

lemma clock_hours_succeeds:
  assumes "list_all wf_token sc"
  shows "succeeds (clock_hours [''UL'', ''UR'', ''DR'', ''DL'', ''ALL''] sc)
           (\<lambda>sc'. list_all wf_token sc' \<and> length sc' = length sc + 5 \<and> take (length sc) sc' = sc)"
proof -
  let ?ps = "[''UL'', ''UR'', ''DR'', ''DL'', ''ALL'']"
  let ?I = "\<lambda>k s. list_all wf_token s \<and> length s = length sc + k \<and> take (length sc) s = sc"
  have "succeeds (clock_hours ?ps sc) (?I (length ?ps))"
    unfolding clock_hours_def
  proof (rule succeeds_forEach)
    show "?I 0 sc" using assms by simp
  next
    fix k s assume k: "k < length ?ps" and I: "?I k s"
    from k have "?ps ! k \<in> set ?ps" by (intro nth_mem)
    then have pos: "CHR '' '' \<notin> set (?ps ! k)" by auto
    show "succeeds (bindR (getRandomInt 0 6) (\<lambda>hour. returnR (s @ [?ps ! k @ (if hour \<ge> 0 then ''+'' else '''') @ number_text hour]))) (?I (Suc k))"
    proof (rule succeeds_bindR [OF succeeds_getRandomInt])
      show "(0::int) \<le> 6" by simp
    next
      fix hour :: int assume "0 \<le> hour \<and> hour \<le> 6"
      with I pos show "succeeds (returnR (s @ [?ps ! k @ (if hour \<ge> 0 then ''+'' else '''') @ number_text hour])) (?I (Suc k))"
        by (intro succeeds_returnR) (simp add: wf_token_def number_text_no_space)
    qed
  qed
  then show ?thesis by (rule succeeds_weaken) simp
qed



lemma pin_value_cases: "v \<in> set [''u'', ''d''] \<Longrightarrow> v = ''u'' \<or> v = ''d''"
  by simp

lemma pin_value_no_space: "v \<in> set [''u'', ''d''] \<Longrightarrow> CHR '' '' \<notin> set v"
  by (drule pin_value_cases) (erule disjE, simp_all)

lemma template_no_space:
  assumes "\<And>k' v. map_of pins k' = Some v \<Longrightarrow> CHR '' '' \<notin> set v"
  shows "CHR '' '' \<notin> set (template (map_of pins k))"
proof (cases "map_of pins k")
  case None
  then show ?thesis by (simp add: template_def)
next
  case (Some v)
  with assms [of k v] show ?thesis by (simp add: template_def)
qed

lemma pins_lookup:
  "map_of [(''UR'', ur), (''DR'', dr), (''DL'', dl), (''UL'', ul)] k = Some v
    \<Longrightarrow> v = ur \<or> v = dr \<or> v = dl \<or> v = ul"
  by (simp split: if_splits)

lemma pins_at:
  "map_of [(''UR'', ur), (''DR'', dr), (''DL'', dl), (''UL'', ul)] ''UR'' = Some ur"
  "map_of [(''UR'', ur), (''DR'', dr), (''DL'', dl), (''UL'', ul)] ''DR'' = Some dr"
  "map_of [(''UR'', ur), (''DR'', dr), (''DL'', dl), (''UL'', ul)] ''DL'' = Some dl"
  "map_of [(''UR'', ur), (''DR'', dr), (''DL'', dl), (''UL'', ul)] ''UL'' = Some ul"
  by simp_all

lemma up_pins_not_Nil:
  assumes "ur \<in> set [''u'', ''d'']" "dr \<in> set [''u'', ''d'']" "dl \<in> set [''u'', ''d'']" "ul \<in> set [''u'', ''d'']"
    and few: "length (filter (\<lambda>p. p = ''d'') (map snd [(''UR'', ur), (''DR'', dr), (''DL'', dl), (''UL'', ul)])) < 2"
  shows "filter (\<lambda>pos. map_of [(''UR'', ur), (''DR'', dr), (''DL'', dl), (''UL'', ul)] pos = Some ''u'')
           [''UR'', ''DR'', ''DL'', ''UL''] \<noteq> []"
proof
  let ?pins = "[(''UR'', ur), (''DR'', dr), (''DL'', dl), (''UL'', ul)]"
  assume "filter (\<lambda>pos. map_of ?pins pos = Some ''u'') [''UR'', ''DR'', ''DL'', ''UL''] = []"
  then have none: "\<forall>pos\<in>set [''UR'', ''DR'', ''DL'', ''UL'']. map_of ?pins pos \<noteq> Some ''u''"
    by (simp only: filter_empty_conv)
  have "map_of ?pins ''UR'' \<noteq> Some ''u''" "map_of ?pins ''DR'' \<noteq> Some ''u''"
    "map_of ?pins ''DL'' \<noteq> Some ''u''" "map_of ?pins ''UL'' \<noteq> Some ''u''"
    using none by (simp_all only: list.set insert_iff ball_simps simp_thms)
  then have "ur \<noteq> ''u''" "dr \<noteq> ''u''" "dl \<noteq> ''u''" "ul \<noteq> ''u''"
    by (simp_all only: pins_at option.inject not_False_eq_True)
  with assms(1-4) [THEN pin_value_cases] have "ur = ''d''" "dr = ''d''" "dl = ''d''" "ul = ''d''"
    by blast+
  with few show False by simp
qed

lemma clock_flip_succeeds:
  assumes v: "ur \<in> set [''u'', ''d'']" "dr \<in> set [''u'', ''d'']" "dl \<in> set [''u'', ''d'']" "ul \<in> set [''u'', ''d'']"
  defines "pins \<equiv> [(''UR'', ur), (''DR'', dr), (''DL'', dl), (''UL'', ul)]"
  shows "succeeds
     (if length (filter (\<lambda>p. p = ''d'') (map snd pins)) < 2 then
        bindR (getRandomElement
                 (filter (\<lambda>pos. map_of pins pos = Some ''u'') [''UR'', ''DR'', ''DL'', ''UL'']))
          (\<lambda>randomPosition. returnR (AList.update randomPosition ''d'' pins))
      else returnR pins)
     (\<lambda>pins'. \<forall>k. CHR '' '' \<notin> set (template (map_of pins' k)))"
proof -
  have base: "CHR '' '' \<notin> set w" if "map_of pins k = Some w" for k w
  proof -
    from that have "w = ur \<or> w = dr \<or> w = dl \<or> w = ul"
      unfolding pins_def by (rule pins_lookup)
    with v [THEN pin_value_no_space] show ?thesis by blast
  qed
  have upd: "CHR '' '' \<notin> set w" if "map_of (AList.update pos ''d'' pins) k = Some w" for pos k w
  proof (cases "k = pos")
    case True
    with that have "w = ''d''" by (simp add: update_conv')
    then show ?thesis by simp
  next
    case False
    with that have "map_of pins k = Some w" by (simp add: update_conv')
    then show ?thesis by (rule base)
  qed
  show ?thesis
  proof (cases "length (filter (\<lambda>p. p = ''d'') (map snd pins)) < 2")
    case True
    then have ne: "filter (\<lambda>pos. map_of pins pos = Some ''u'') [''UR'', ''DR'', ''DL'', ''UL''] \<noteq> []"
      unfolding pins_def by (rule up_pins_not_Nil [OF v])
    have "succeeds (bindR (getRandomElement
                 (filter (\<lambda>pos. map_of pins pos = Some ''u'') [''UR'', ''DR'', ''DL'', ''UL'']))
          (\<lambda>randomPosition. returnR (AList.update randomPosition ''d'' pins)))
          (\<lambda>pins'. \<forall>k. CHR '' '' \<notin> set (template (map_of pins' k)))"
      by (rule succeeds_bindR [OF succeeds_getRandomElement [OF ne]], rule succeeds_returnR)
        (intro allI template_no_space, erule upd)
    with True show ?thesis by (simp only: if_True)
  next
    case False
    have "succeeds (returnR pins) (\<lambda>pins'. \<forall>k. CHR '' '' \<notin> set (template (map_of pins' k)))"
      by (rule succeeds_returnR) (intro allI template_no_space, erule base)
    with False show ?thesis by (simp only: if_False)
  qed
qed

lemma clock_tail_succeeds:
  assumes "\<forall>k. CHR '' '' \<notin> set (template (map_of pins k))"
  shows "succeeds
    (let scramble = [''('' @ template (map_of pins ''UR'') @ '','' @ template (map_of pins ''DR'')
                       @ '','' @ template (map_of pins ''DL'') @ '','' @ template (map_of pins ''UL'')
                       @ '')''];
         positions = [''UL'', ''UR'', ''DR'', ''DL'', ''ALL'']
     in
     bindR (clock_hours positions scramble) (\<lambda>scramble.
     bindR (clock_hours positions (scramble @ [''y2''])) (\<lambda>scramble.
     returnR (join scramble))))
    (\<lambda>s. length (tokens s) = 12 \<and> tokens s ! 6 = ''y2'')"
proof -
  let ?pin = "''('' @ template (map_of pins ''UR'') @ '','' @ template (map_of pins ''DR'')
                       @ '','' @ template (map_of pins ''DL'') @ '','' @ template (map_of pins ''UL'')
                       @ '')''"
  have pin: "list_all wf_token [?pin]"
    using assms by (simp add: wf_token_def)
  show ?thesis
    unfolding Let_def
  proof (rule succeeds_bindR [OF clock_hours_succeeds [OF pin]])
    fix sc assume sc: "list_all wf_token sc \<and> length sc = length [?pin] + 5 \<and> take (length [?pin]) sc = [?pin]"
    then have wf: "list_all wf_token (sc @ [''y2''])" by (simp add: wf_token_def)
    show "succeeds (bindR (clock_hours [''UL'', ''UR'', ''DR'', ''DL'', ''ALL''] (sc @ [''y2'']))
            (\<lambda>scramble. returnR (join scramble))) (\<lambda>s. length (tokens s) = 12 \<and> tokens s ! 6 = ''y2'')"
    proof (rule succeeds_bindR [OF clock_hours_succeeds [OF wf]])
      fix sc' assume sc': "list_all wf_token sc' \<and> length sc' = length (sc @ [''y2'']) + 5
          \<and> take (length (sc @ [''y2''])) sc' = sc @ [''y2'']"
      from sc sc' have len: "length sc' = 12" and tk: "take 7 sc' = sc @ [''y2'']" and l6: "length sc = 6"
        by simp_all
      have "sc' ! 6 = take 7 sc' ! 6" by simp
      also have "\<dots> = ''y2''" using l6 by (simp add: tk nth_append)
      finally have "sc' ! 6 = ''y2''" .
      with len sc' show "succeeds (returnR (join sc')) (\<lambda>s. length (tokens s) = 12 \<and> tokens s ! 6 = ''y2'')"
        by (intro succeeds_returnR) (simp add: tokens_join)
    qed
  qed
qed

lemma clock_succeeds:
  "succeeds generateClockScramble (\<lambda>s. length (tokens s) = 12 \<and> tokens s ! 6 = ''y2'')"
  unfolding generateClockScramble_def
  apply (rule succeeds_bindR [OF succeeds_getRandomElement], simp)
  apply (rule succeeds_bindR [OF succeeds_getRandomElement], simp)
  apply (rule succeeds_bindR [OF succeeds_getRandomElement], simp)
  apply (rule succeeds_bindR [OF succeeds_getRandomElement], simp)
  apply (subst Let_def)
  apply (subst Let_def)
  apply (rule succeeds_bindR [OF clock_flip_succeeds], assumption+)
  apply (erule clock_tail_succeeds)
  done

text \<open>The run on the stream of zeros.\<close>

lemma clock_zero:
  "generateScramble ''Clock'' (sconst 0) =
     Inr (''(d,u,u,u) UL+0 UR+0 DR+0 DL+0 ALL+0 y2 UL+0 UR+0 DR+0 DL+0 ALL+0'', sconst 0)"
  by (simp add: generateScramble_def generateClockScramble_def clock_hours_def getRandomElement_def
      getRandomInt_def Math_random_def bindR_def returnR_def throwR_def Let_def template_def
      number_text_def decimal.simps digit_def)

lemma generateScramble_Clock: "generateScramble ''Clock'' = generateClockScramble"
  by (simp add: generateScramble_def)

text \<open>
  Claim C1. The first token of a Clock scramble, read as four comma-separated pin values,
  should hold at least two \<open>d\<close>. The generator flips a single pin when fewer than two are
  down, so four pins drawn up give one \<open>d\<close> only: on the stream of zeros every pin is drawn
  up, the first is flipped, and the pin token holds exactly one \<open>d\<close>.
\<close>

theorem clock_all_up_one_down:
  "generateScramble ''Clock'' (sconst 0) =
     Inr (''(d,u,u,u) UL+0 UR+0 DR+0 DL+0 ALL+0 y2 UL+0 UR+0 DR+0 DL+0 ALL+0'', sconst 0)
   \<and> count_list (pin_values (hd (tokens
        ''(d,u,u,u) UL+0 UR+0 DR+0 DL+0 ALL+0 y2 UL+0 UR+0 DR+0 DL+0 ALL+0''))) ''d'' = 1"
  by (simp add: clock_zero tokens_def pin_values_def)

text \<open>
  Claim C2, as stated: a Clock scramble has twelve tokens and the sixth, counting from one,
  is \<open>y2\<close>. The sixth token is the hour of position ALL; \<open>y2\<close> is the seventh.
\<close>

theorem clock_sixth_token_counterexample:
  "generateScramble ''Clock'' (sconst 0) =
     Inr (''(d,u,u,u) UL+0 UR+0 DR+0 DL+0 ALL+0 y2 UL+0 UR+0 DR+0 DL+0 ALL+0'', sconst 0)
   \<and> tokens ''(d,u,u,u) UL+0 UR+0 DR+0 DL+0 ALL+0 y2 UL+0 UR+0 DR+0 DL+0 ALL+0'' ! 5 = ''ALL+0''
   \<and> tokens ''(d,u,u,u) UL+0 UR+0 DR+0 DL+0 ALL+0 y2 UL+0 UR+0 DR+0 DL+0 ALL+0'' ! 5 \<noteq> ''y2''"
  by (simp add: clock_zero tokens_def)

text \<open>
  Claim C2, amended: on every stream of draws from the unit interval a Clock scramble has
  exactly twelve space-separated tokens, and the seventh of them, counting from one (index 6
  counting from zero), is \<open>y2\<close>.
\<close>

theorem clock_twelve_tokens_y2_seventh:
  assumes "unit_draws rs"
  shows "\<exists>s rs'. generateScramble ''Clock'' rs = Inr (s, rs')
           \<and> length (tokens s) = 12 \<and> tokens s ! 6 = ''y2''"
  using succeedsD [OF clock_succeeds assms] by (auto simp: generateScramble_Clock)

theorem clock_twelve_tokens_y2_seventh_witness:
  "unit_draws (sconst 0) \<and>
   (\<exists>s rs'. generateScramble ''Clock'' (sconst 0) = Inr (s, rs')
      \<and> length (tokens s) = 12 \<and> tokens s ! 6 = ''y2'')"
proof -
  have u: "unit_draws (sconst 0)" by (simp add: unit_draws_sconst)
  from clock_twelve_tokens_y2_seventh [OF u] u show ?thesis by simp
qed

subsection \<open>The loop invariant of the move generators\<close>

lemma stepwise_start: "stepwise R 0 start"
  by (simp add: stepwise_def start_def face_before_def)

lemma face_before_append:
  "i \<le> length ts \<Longrightarrow> 0 < d \<Longrightarrow> face_before (ts @ [t]) i d = face_before ts i d"
proof (cases "d \<le> i")
  case True
  assume "i \<le> length ts" "0 < d"
  with True have "i - d < length ts" by arith
  with True show ?thesis by (simp add: face_before_def nth_append)
next
  case False
  then show ?thesis by (simp add: face_before_def)
qed

lemma stepwise_push:
  assumes inv: "stepwise R k st"
    and R: "R (secondLastMove st) (lastMove st) face"
    and face: "length face = 1"
    and m: "CHR '' '' \<notin> set (face @ modifier)"
  shows "stepwise R (Suc k) (push_move st face modifier)"
proof -
  let ?ts = "scramble st"
  let ?ts' = "?ts @ [face @ modifier]"
  from inv have len: "length ?ts = k" and wf: "list_all wf_token ?ts"
    and l1: "lastMove st = face_before ?ts k 1" and l2: "secondLastMove st = face_before ?ts k 2"
    and all: "\<And>i. i < k \<Longrightarrow> R (face_before ?ts i 2) (face_before ?ts i 1) (face_letter (?ts ! i))"
    by (simp_all add: stepwise_def)
  have fl: "face_letter (face @ modifier) = face"
    using face by (simp add: face_letter_def)
  have new: "face_letter (?ts' ! k) = face"
    using len fl by (simp add: nth_append)
  have old: "face_letter (?ts' ! i) = face_letter (?ts ! i)" if "i < k" for i
    using that len by (simp add: nth_append)
  have b: "face_before ?ts' i d = face_before ?ts i d" if "i \<le> k" "0 < d" for i d
    using that len by (simp add: face_before_append)
  have "length ?ts' = Suc k" using len by simp
  moreover have "list_all wf_token ?ts'"
    using wf m face by (auto simp: wf_token_def)
  moreover have "face = face_before ?ts' (Suc k) 1"
    using new by (simp add: face_before_def)
  moreover have "lastMove st = face_before ?ts' (Suc k) 2"
  proof (cases "k = 0")
    case True
    with l1 show ?thesis by (simp add: face_before_def)
  next
    case False
    then have "face_before ?ts' (Suc k) 2 = face_letter (?ts' ! (k - 1))"
      by (simp add: face_before_def numeral_2_eq_2)
    also have "\<dots> = face_letter (?ts ! (k - 1))" using False by (intro old) simp
    also have "\<dots> = lastMove st" using False l1 by (simp add: face_before_def)
    finally show ?thesis by simp
  qed
  moreover have "R (face_before ?ts' i 2) (face_before ?ts' i 1) (face_letter (?ts' ! i))"
    if "i < Suc k" for i
  proof (cases "i < k")
    case True
    with all [OF True] show ?thesis by (simp add: b old)
  next
    case False
    with that have "i = k" by simp
    with R l1 l2 new show ?thesis by (simp add: b)
  qed
  ultimately show ?thesis
    by (simp add: stepwise_def push_move_def)
qed

lemma stepwise_last_cases:
  assumes "stepwise R k st"
  shows "(lastMove st = '''' \<and> secondLastMove st = '''') \<or>
         (\<exists>s l. R s l (lastMove st))"
proof (cases "k = 0")
  case True
  with assms show ?thesis by (simp add: stepwise_def face_before_def)
next
  case False
  then have "k - 1 < k" by simp
  with assms have "R (face_before (scramble st) (k - 1) 2) (face_before (scramble st) (k - 1) 1)
               (face_letter (scramble st ! (k - 1)))"
    unfolding stepwise_def by blast
  moreover have "lastMove st = face_letter (scramble st ! (k - 1))"
    using assms False by (simp add: stepwise_def face_before_def)
  ultimately show ?thesis by auto
qed

text \<open>Reading the pairwise facts off the invariant.\<close>

lemma stepwise_adjacent:
  assumes "stepwise R k st" "Suc i < k"
  shows "\<exists>s. R s (face_letter (scramble st ! i)) (face_letter (scramble st ! Suc i))"
proof -
  from assms have "R (face_before (scramble st) (Suc i) 2) (face_before (scramble st) (Suc i) 1)
               (face_letter (scramble st ! Suc i))"
    unfolding stepwise_def by blast
  then show ?thesis by (auto simp: face_before_def)
qed

lemma stepwise_two_back:
  assumes "stepwise R k st" "i + 2 < k"
  shows "R (face_letter (scramble st ! i)) (face_letter (scramble st ! (i + 1)))
           (face_letter (scramble st ! (i + 2)))"
proof -
  from assms have "R (face_before (scramble st) (i + 2) 2) (face_before (scramble st) (i + 2) 1)
               (face_letter (scramble st ! (i + 2)))"
    unfolding stepwise_def by blast
  then show ?thesis by (simp add: face_before_def)
qed

lemma stepwise_all:
  assumes "stepwise R k st" "i < k"
  shows "\<exists>s l. R s l (face_letter (scramble st ! i))"
  using assms unfolding stepwise_def by blast

subsection \<open>Filtering and the bias path\<close>

lemma find_self: "find (\<lambda>m. m = s) xs = Some s \<longleftrightarrow> s \<in> set xs"
  by (induction xs) auto

lemma filter_neq_not_Nil:
  assumes "distinct xs" "2 \<le> length xs"
  shows "filter (\<lambda>m. m \<noteq> s) xs \<noteq> []"
proof -
  from assms(2) obtain a b rest where xs: "xs = a # b # rest"
    by (cases xs; cases "tl xs") auto
  with assms(1) have "a \<noteq> b" by simp
  then have "a \<noteq> s \<or> b \<noteq> s" by blast
  with xs show ?thesis by auto
qed

lemma drop_second_last_props:
  assumes d: "distinct xs" and l: "2 \<le> length xs"
    and st: "secondLastMove st = '''' \<or> lastMove st \<noteq> ''''"
    and ne: "'''' \<notin> set xs"
  shows "drop_second_last moves st xs \<noteq> [] \<and>
         (\<forall>m\<in>set (drop_second_last moves st xs). m \<in> set xs \<and> m \<noteq> secondLastMove st)"
proof (cases "secondLastMove st \<noteq> '''' \<and> lastMove st \<noteq> '''' \<and> secondLastMove st \<in> set xs")
  case True
  have "filter (\<lambda>m. m \<noteq> secondLastMove st) xs \<noteq> []"
    using d l by (rule filter_neq_not_Nil)
  moreover from True have "drop_second_last moves st xs =
      (if length (filter (\<lambda>m. m \<noteq> secondLastMove st) xs) = 0
       then filter (\<lambda>move. move \<noteq> lastMove st) moves
       else filter (\<lambda>m. m \<noteq> secondLastMove st) xs)"
    by (simp add: drop_second_last_def find_self)
  ultimately have "drop_second_last moves st xs = filter (\<lambda>m. m \<noteq> secondLastMove st) xs"
    by simp
  with \<open>filter (\<lambda>m. m \<noteq> secondLastMove st) xs \<noteq> []\<close> show ?thesis by simp
next
  case False
  from l have "xs \<noteq> []" by auto
  moreover from False have "drop_second_last moves st xs =
      (if length xs = 0 then filter (\<lambda>move. move \<noteq> lastMove st) moves else xs)"
    by (auto simp add: drop_second_last_def find_self)
  ultimately have eq: "drop_second_last moves st xs = xs" by simp
  have "m \<noteq> secondLastMove st" if "m \<in> set xs" for m
    using False st ne that by auto
  with eq \<open>xs \<noteq> []\<close> show ?thesis by simp
qed

lemma succeeds_biased_modifier:
  "succeeds biased_modifier (\<lambda>m. m \<in> set ['''', prime, ''2''])"
  unfolding biased_modifier_def
proof (rule succeeds_bindR [OF succeeds_Math_random])
  fix r :: real
  show "succeeds (if r < 4 / 10 then returnR ''2''
       else bindR Math_random (\<lambda>r'. returnR (if r' < 5 / 10 then prime else '''')))
       (\<lambda>m. m \<in> set ['''', prime, ''2''])"
  proof (cases "r < 4 / 10")
    case True
    then show ?thesis by (simp add: succeeds_returnR)
  next
    case False
    have "succeeds (bindR Math_random (\<lambda>r'. returnR (if r' < 5 / 10 then prime else '''')))
       (\<lambda>m. m \<in> set ['''', prime, ''2''])"
      by (rule succeeds_bindR [OF succeeds_Math_random], rule succeeds_returnR) simp
    with False show ?thesis by simp
  qed
qed

lemma succeeds_preferred_move:
  "succeeds (preferred_move pairs previous availableMoves)
     (\<lambda>res. case res of None \<Rightarrow> True
        | Some (face, modifier) \<Rightarrow> face \<in> set availableMoves \<and> modifier \<in> set ['''', prime, ''2''])"
  (is "succeeds _ ?P")
proof (cases "filter (\<lambda>pair. previous \<in> set pair) pairs = []")
  case True
  then show ?thesis by (simp add: preferred_move_def succeeds_returnR)
next
  case False
  have none: "succeeds (returnR None) ?P" by (rule succeeds_returnR) simp
  have "succeeds (bindR (getRandomElement (filter (\<lambda>pair. previous \<in> set pair) pairs)) (\<lambda>randomPair.
          case find (\<lambda>move. move \<noteq> previous) randomPair of
            None \<Rightarrow> returnR None
          | Some preferredMove \<Rightarrow>
              if preferredMove \<noteq> '''' \<and> preferredMove \<in> set availableMoves then
                bindR Math_random (\<lambda>r.
                  if r < 6 / 10 then
                    bindR biased_modifier (\<lambda>modifier. returnR (Some (preferredMove, modifier)))
                  else returnR None)
              else returnR None)) ?P"
  proof (rule succeeds_bindR [OF succeeds_getRandomElement [OF False]])
    fix randomPair :: "string list"
    show "succeeds (case find (\<lambda>move. move \<noteq> previous) randomPair of
            None \<Rightarrow> returnR None
          | Some preferredMove \<Rightarrow>
              if preferredMove \<noteq> '''' \<and> preferredMove \<in> set availableMoves then
                bindR Math_random (\<lambda>r.
                  if r < 6 / 10 then
                    bindR biased_modifier (\<lambda>modifier. returnR (Some (preferredMove, modifier)))
                  else returnR None)
              else returnR None) ?P"
    proof (cases "find (\<lambda>move. move \<noteq> previous) randomPair")
      case None
      with none show ?thesis by simp
    next
      case (Some preferredMove)
      show ?thesis
      proof (cases "preferredMove \<noteq> '''' \<and> preferredMove \<in> set availableMoves")
        case True
        have "succeeds (bindR Math_random (\<lambda>r.
                  if r < 6 / 10 then
                    bindR biased_modifier (\<lambda>modifier. returnR (Some (preferredMove, modifier)))
                  else returnR None)) ?P"
        proof (rule succeeds_bindR [OF succeeds_Math_random])
          fix r :: real
          have "succeeds (bindR biased_modifier (\<lambda>modifier. returnR (Some (preferredMove, modifier)))) ?P"
            by (rule succeeds_bindR [OF succeeds_biased_modifier], rule succeeds_returnR)
              (use True in simp)
          with none show "succeeds (if r < 6 / 10 then
                    bindR biased_modifier (\<lambda>modifier. returnR (Some (preferredMove, modifier)))
                  else returnR None) ?P"
            by simp
        qed
        with Some True show ?thesis by simp
      next
        case False
        show ?thesis
          by (simp only: Some option.case if_not_P [OF False] none)
      qed
    qed
  qed
  with False show ?thesis by (simp add: preferred_move_def)
qed

subsection \<open>3x3\<close>

lemma bindR_returnR: "bindR (returnR x) f = f x"
  by (rule ext) (simp add: bindR_def returnR_def)

lemma avail3x3:
  assumes "previous = '''' \<or> previous \<in> set [''R'', ''L'', ''U'', ''D'', ''F'', ''B'']"
  shows "(if previous \<noteq> '''' then
            (case sameAxis previous of
               None \<Rightarrow> throwR TypeError
             | Some axis \<Rightarrow> returnR (filter (\<lambda>move. move \<notin> set axis) [''R'', ''L'', ''U'', ''D'', ''F'', ''B'']))
          else returnR [''R'', ''L'', ''U'', ''D'', ''F'', ''B''])
         = returnR (filter (\<lambda>m. \<not> on_same_axis previous m) [''R'', ''L'', ''U'', ''D'', ''F'', ''B''])"
    and "distinct (filter (\<lambda>m. \<not> on_same_axis previous m) [''R'', ''L'', ''U'', ''D'', ''F'', ''B''])"
    and "2 \<le> length (filter (\<lambda>m. \<not> on_same_axis previous m) [''R'', ''L'', ''U'', ''D'', ''F'', ''B''])"
    and "'''' \<notin> set (filter (\<lambda>m. \<not> on_same_axis previous m) [''R'', ''L'', ''U'', ''D'', ''F'', ''B''])"
proof -
  from assms consider "previous = ''''" | "previous = ''R''" | "previous = ''L''" | "previous = ''U''"
    | "previous = ''D''" | "previous = ''F''" | "previous = ''B''"
    by auto
  then have "(if previous \<noteq> '''' then
            (case sameAxis previous of
               None \<Rightarrow> throwR TypeError
             | Some axis \<Rightarrow> returnR (filter (\<lambda>move. move \<notin> set axis) [''R'', ''L'', ''U'', ''D'', ''F'', ''B'']))
          else returnR [''R'', ''L'', ''U'', ''D'', ''F'', ''B''])
         = returnR (filter (\<lambda>m. \<not> on_same_axis previous m) [''R'', ''L'', ''U'', ''D'', ''F'', ''B''])
     \<and> distinct (filter (\<lambda>m. \<not> on_same_axis previous m) [''R'', ''L'', ''U'', ''D'', ''F'', ''B''])
     \<and> 2 \<le> length (filter (\<lambda>m. \<not> on_same_axis previous m) [''R'', ''L'', ''U'', ''D'', ''F'', ''B''])"
    by cases (simp_all add: sameAxis_def on_same_axis_def)
  then show "(if previous \<noteq> '''' then
            (case sameAxis previous of
               None \<Rightarrow> throwR TypeError
             | Some axis \<Rightarrow> returnR (filter (\<lambda>move. move \<notin> set axis) [''R'', ''L'', ''U'', ''D'', ''F'', ''B'']))
          else returnR [''R'', ''L'', ''U'', ''D'', ''F'', ''B''])
         = returnR (filter (\<lambda>m. \<not> on_same_axis previous m) [''R'', ''L'', ''U'', ''D'', ''F'', ''B''])"
    and "distinct (filter (\<lambda>m. \<not> on_same_axis previous m) [''R'', ''L'', ''U'', ''D'', ''F'', ''B''])"
    and "2 \<le> length (filter (\<lambda>m. \<not> on_same_axis previous m) [''R'', ''L'', ''U'', ''D'', ''F'', ''B''])"
    by blast+
  show "'''' \<notin> set (filter (\<lambda>m. \<not> on_same_axis previous m) [''R'', ''L'', ''U'', ''D'', ''F'', ''B''])"
    by simp
qed

lemma face_token:
  assumes "face \<in> set [''R'', ''L'', ''U'', ''D'', ''F'', ''B'', ''M'', ''E'', ''S'']"
    and "modifier \<in> set ['''', prime, ''2'', ''w'', ''w'' @ prime, ''w2'']"
  shows "length face = 1" and "CHR '' '' \<notin> set (face @ modifier)"
proof -
  from assms(1) show "length face = 1" by auto
  from assms(1) have "CHR '' '' \<notin> set face" by auto
  moreover from assms(2) have "CHR '' '' \<notin> set modifier" by auto
  ultimately show "CHR '' '' \<notin> set (face @ modifier)" by simp
qed

lemma push_ok3x3:
  assumes "stepwise ok3x3 k st" "ok3x3 (secondLastMove st) (lastMove st) face"
    and "modifier \<in> set ['''', prime, ''2'']"
  shows "stepwise ok3x3 (Suc k) (push_move st face modifier)"
proof -
  from assms(2) have "face \<in> set [''R'', ''L'', ''U'', ''D'', ''F'', ''B'', ''M'', ''E'', ''S'']"
    by (auto simp: ok3x3_def)
  moreover from assms(3) have "modifier \<in> set ['''', prime, ''2'', ''w'', ''w'' @ prime, ''w2'']"
    by auto
  ultimately have "length face = 1" "CHR '' '' \<notin> set (face @ modifier)"
    by (rule face_token)+
  with assms(1,2) show ?thesis by (rule stepwise_push)
qed

lemma step3x3_succeeds:
  assumes inv: "stepwise ok3x3 k st"
  shows "succeeds (step3x3 i st) (stepwise ok3x3 (Suc k))"
proof -
  let ?moves = "[''R'', ''L'', ''U'', ''D'', ''F'', ''B'']"
  let ?filtered = "filter (\<lambda>m. \<not> on_same_axis (lastMove st) m) ?moves"
  let ?av = "drop_second_last ?moves st ?filtered"
  let ?pairs = "[[''R'', ''F''], [''R'', ''U''], [''U'', ''F''], [''L'', ''B''], [''L'', ''D''], [''D'', ''B'']]"
  let ?P = "\<lambda>res. case res of None \<Rightarrow> True
        | Some (face, modifier) \<Rightarrow> face \<in> set ?av \<and> modifier \<in> set ['''', prime, ''2'']"
  from stepwise_last_cases [OF inv]
  have last: "lastMove st = '''' \<or> lastMove st \<in> set ?moves"
    and second: "secondLastMove st = '''' \<or> lastMove st \<noteq> ''''"
    by (auto simp: ok3x3_def)
  note av0 = avail3x3 [OF last]
  from drop_second_last_props [OF av0(2) av0(3) second av0(4), of ?moves]
  have ne: "?av \<noteq> []"
    and mem: "\<And>m. m \<in> set ?av \<Longrightarrow> m \<in> set ?filtered \<and> m \<noteq> secondLastMove st"
    by blast+
  have av: "ok3x3 (secondLastMove st) (lastMove st) m" if "m \<in> set ?av" for m
  proof -
    from mem [OF that] have a: "m \<in> set ?filtered" and neq: "m \<noteq> secondLastMove st" by blast+
    from a have "m \<in> set ?moves \<and> \<not> on_same_axis (lastMove st) m"
      unfolding set_filter by blast
    with neq show ?thesis unfolding ok3x3_def by blast
  qed
  have pref: "succeeds (if i > 0 \<and> i mod 5 = 0 \<and> lastMove st \<noteq> '''' then
               preferred_move ?pairs (lastMove st) ?av
             else returnR None) ?P"
    using succeeds_preferred_move [of ?pairs "lastMove st" ?av]
    by (simp add: succeeds_returnR)
  have rest: "succeeds (case preferred of
        Some (preferredMove, modifier) \<Rightarrow> returnR (push_move st preferredMove modifier)
      | None \<Rightarrow>
          bindR (getRandomElement ?av) (\<lambda>face.
          bindR Math_random (\<lambda>r.
          let modifier = (if r < 33 / 100 then '''' else if r < 66 / 100 then prime else ''2'')
          in returnR (push_move st face modifier)))) (stepwise ok3x3 (Suc k))"
    if "?P preferred" for preferred
  proof (cases preferred)
    case None
    have "succeeds (bindR (getRandomElement ?av) (\<lambda>face.
          bindR Math_random (\<lambda>r.
          let modifier = (if r < 33 / 100 then '''' else if r < 66 / 100 then prime else ''2'')
          in returnR (push_move st face modifier)))) (stepwise ok3x3 (Suc k))"
    proof (rule succeeds_bindR [OF succeeds_getRandomElement [OF ne]],
        rule succeeds_bindR [OF succeeds_Math_random])
      fix face and r :: real assume "face \<in> set ?av"
      then have ok: "ok3x3 (secondLastMove st) (lastMove st) face" by (rule av)
      show "succeeds (let modifier = (if r < 33 / 100 then '''' else if r < 66 / 100 then prime else ''2'')
          in returnR (push_move st face modifier)) (stepwise ok3x3 (Suc k))"
        unfolding Let_def by (rule succeeds_returnR, rule push_ok3x3 [OF inv ok]) simp
    qed
    with None show ?thesis by simp
  next
    case (Some p)
    obtain face modifier where p: "p = (face, modifier)" by (cases p)
    with that Some have "face \<in> set ?av" and md: "modifier \<in> set ['''', prime, ''2'']" by simp_all
    then have "ok3x3 (secondLastMove st) (lastMove st) face" by (intro av)
    then have "stepwise ok3x3 (Suc k) (push_move st face modifier)"
      using md by (intro push_ok3x3 [OF inv])
    then show ?thesis by (simp add: Some p succeeds_returnR)
  qed
  show ?thesis
    unfolding step3x3_def Let_def av0(1) bindR_returnR
    by (rule succeeds_bindR [OF pref]) (rule rest [unfolded Let_def])
qed

lemma forEach_upt_succeeds:
  assumes "I 0 s" and "\<And>k s. k < n \<Longrightarrow> I k s \<Longrightarrow> succeeds (body k s) (I (Suc k))"
  shows "succeeds (forEach [0..<n] body s) (I n)"
proof -
  have "succeeds (forEach [0..<n] body s) (I (length [0..<n]))"
  proof (rule succeeds_forEach [where I = I])
    show "I 0 s" by (rule assms(1))
  next
    fix k s assume "k < length [0..<n]" "I k s"
    then show "succeeds (body ([0..<n] ! k) s) (I (Suc k))"
      using assms(2) [of k s] by simp
  qed
  then show ?thesis by simp
qed

lemma generate3x3_succeeds: "succeeds generate3x3Scramble (\<lambda>s. shape3x3 (tokens s))"
  unfolding generate3x3Scramble_def
proof (rule succeeds_bindR [where P = "stepwise ok3x3 20"])
  show "succeeds (forEach [0..<20] step3x3 start) (stepwise ok3x3 20)"
    by (rule forEach_upt_succeeds [where I = "stepwise ok3x3"])
      (rule stepwise_start, rule step3x3_succeeds)
next
  fix st assume inv: "stepwise ok3x3 20 st"
  then have tk: "tokens (join (scramble st)) = scramble st" and len: "length (scramble st) = 20"
    by (simp_all add: stepwise_def tokens_join)
  have "\<not> on_same_axis (face_letter (scramble st ! i)) (face_letter (scramble st ! Suc i))"
    if "Suc i < 20" for i
    using stepwise_adjacent [OF inv that] by (auto simp: ok3x3_def)
  moreover have "face_letter (scramble st ! (i + 2)) \<noteq> face_letter (scramble st ! i)"
    if "i + 2 < 20" for i
    using stepwise_two_back [OF inv that] by (auto simp: ok3x3_def)
  ultimately have "shape3x3 (scramble st)"
    using len by (simp add: shape3x3_def)
  then show "succeeds (returnR (join (scramble st))) (\<lambda>s. shape3x3 (tokens s))"
    by (intro succeeds_returnR) (simp add: tk)
qed

subsection \<open>2x2\<close>

lemma succeeds_if:
  "(c \<Longrightarrow> succeeds a P) \<Longrightarrow> (\<not> c \<Longrightarrow> succeeds b P) \<Longrightarrow> succeeds (if c then a else b) P"
  by simp

lemma avail2x2:
  assumes "previous = '''' \<or> previous \<in> set [''R'', ''U'', ''F'']"
  defines "filtered \<equiv> (if previous \<noteq> '''' then
            (case sameAxis previous of
               None \<Rightarrow> [''R'', ''U'', ''F'']
             | Some axis \<Rightarrow> filter (\<lambda>move. move \<notin> set axis) [''R'', ''U'', ''F''])
          else [''R'', ''U'', ''F''])"
  shows "distinct filtered" and "2 \<le> length filtered" and "'''' \<notin> set filtered"
    and "set filtered \<subseteq> set [''R'', ''U'', ''F'']" and "previous \<notin> set filtered"
proof -
  from assms(1) consider "previous = ''''" | "previous = ''R''" | "previous = ''U''" | "previous = ''F''"
    by auto
  then have "distinct filtered \<and> 2 \<le> length filtered \<and> '''' \<notin> set filtered
      \<and> set filtered \<subseteq> set [''R'', ''U'', ''F''] \<and> previous \<notin> set filtered"
    unfolding filtered_def by cases (simp_all add: sameAxis_def)
  then show "distinct filtered" and "2 \<le> length filtered" and "'''' \<notin> set filtered"
    and "set filtered \<subseteq> set [''R'', ''U'', ''F'']" and "previous \<notin> set filtered"
    by blast+
qed

lemma push_ok2x2:
  assumes "stepwise ok2x2 k st" "ok2x2 (secondLastMove st) (lastMove st) face"
    and "modifier \<in> set ['''', prime, ''2'']"
  shows "stepwise ok2x2 (Suc k) (push_move st face modifier)"
proof -
  from assms(2) have "face \<in> set [''R'', ''L'', ''U'', ''D'', ''F'', ''B'', ''M'', ''E'', ''S'']"
    by (auto simp: ok2x2_def)
  moreover from assms(3) have "modifier \<in> set ['''', prime, ''2'', ''w'', ''w'' @ prime, ''w2'']"
    by auto
  ultimately have "length face = 1" "CHR '' '' \<notin> set (face @ modifier)"
    by (rule face_token)+
  with assms(1,2) show ?thesis by (rule stepwise_push)
qed

lemma step2x2_succeeds:
  assumes inv: "stepwise ok2x2 k st"
  shows "succeeds (step2x2 i st) (stepwise ok2x2 (Suc k))"
proof -
  let ?moves = "[''R'', ''U'', ''F'']"
  let ?filtered = "(if lastMove st \<noteq> '''' then
            (case sameAxis (lastMove st) of
               None \<Rightarrow> ?moves
             | Some axis \<Rightarrow> filter (\<lambda>move. move \<notin> set axis) ?moves)
          else ?moves)"
  let ?av = "drop_second_last ?moves st ?filtered"
  let ?pairs = "[[''R'', ''U''], [''R'', ''F''], [''U'', ''F'']]"
  let ?P = "\<lambda>res. case res of None \<Rightarrow> True
        | Some (face, modifier) \<Rightarrow> face \<in> set ?av \<and> modifier \<in> set ['''', prime, ''2'']"
  from stepwise_last_cases [OF inv]
  have last: "lastMove st = '''' \<or> lastMove st \<in> set ?moves"
    and second: "secondLastMove st = '''' \<or> lastMove st \<noteq> ''''"
    by (auto simp: ok2x2_def)
  note fl = avail2x2 [OF last]
  from drop_second_last_props [OF fl(1) fl(2) second fl(3), of ?moves]
  have ne: "?av \<noteq> []"
    and mem: "\<And>m. m \<in> set ?av \<Longrightarrow> m \<in> set ?filtered \<and> m \<noteq> secondLastMove st"
    by blast+
  have av: "ok2x2 (secondLastMove st) (lastMove st) m" if "m \<in> set ?av" for m
  proof -
    from mem [OF that] have a: "m \<in> set ?filtered" and neq: "m \<noteq> secondLastMove st" by blast+
    from a fl(4) have "m \<in> set ?moves" by blast
    moreover from a fl(5) have "m \<noteq> lastMove st" by blast
    ultimately show ?thesis using neq unfolding ok2x2_def by blast
  qed
  have pref: "succeeds (if i > 0 \<and> i mod 3 = 0 \<and> lastMove st \<noteq> '''' then
               preferred_move ?pairs (lastMove st) ?av
             else returnR None) ?P"
    by (rule succeeds_if, rule succeeds_preferred_move, rule succeeds_returnR) simp
  have rest: "succeeds (case preferred of
        Some (nextMove, modifier) \<Rightarrow> returnR (push_move st nextMove modifier)
      | None \<Rightarrow>
          bindR (getRandomElement ?av) (\<lambda>face.
          bindR Math_random (\<lambda>r.
          returnR (push_move st face (if r < 3 / 10 then '''' else if r < 65 / 100 then prime else ''2''))))) (stepwise ok2x2 (Suc k))"
    if "?P preferred" for preferred
  proof (cases preferred)
    case None
    have "succeeds (bindR (getRandomElement ?av) (\<lambda>face.
          bindR Math_random (\<lambda>r.
          returnR (push_move st face (if r < 3 / 10 then '''' else if r < 65 / 100 then prime else ''2''))))) (stepwise ok2x2 (Suc k))"
    proof (rule succeeds_bindR [OF succeeds_getRandomElement [OF ne]],
        rule succeeds_bindR [OF succeeds_Math_random])
      fix face and r :: real assume "face \<in> set ?av"
      then have ok: "ok2x2 (secondLastMove st) (lastMove st) face" by (rule av)
      show "succeeds (returnR (push_move st face (if r < 3 / 10 then '''' else if r < 65 / 100 then prime else ''2''))) (stepwise ok2x2 (Suc k))"
        by (rule succeeds_returnR, rule push_ok2x2 [OF inv ok]) simp
    qed
    with None show ?thesis by simp
  next
    case (Some p)
    obtain face modifier where p: "p = (face, modifier)" by (cases p)
    with that Some have "face \<in> set ?av" and md: "modifier \<in> set ['''', prime, ''2'']" by simp_all
    then have "ok2x2 (secondLastMove st) (lastMove st) face" by (intro av)
    then have "stepwise ok2x2 (Suc k) (push_move st face modifier)"
      using md by (intro push_ok2x2 [OF inv])
    then show ?thesis by (simp add: Some p succeeds_returnR)
  qed
  show ?thesis
    unfolding step2x2_def Let_def
    by (rule succeeds_bindR [OF pref]) (rule rest)
qed

lemma third_face_unique:
  assumes "a \<in> set [''R'', ''U'', ''F'']" "b \<in> set [''R'', ''U'', ''F'']" "c \<in> set [''R'', ''U'', ''F'']"
    and "a \<noteq> b" "c \<noteq> a" "c \<noteq> b"
  shows "c = third_face a b"
  using assms by (auto simp: third_face_def)

lemma stepwise_shape2x2:
  assumes inv: "stepwise ok2x2 k st" and k: "9 \<le> k" "k \<le> 11"
  shows "shape2x2 (scramble st)"
proof -
  let ?f = "\<lambda>i. face_letter (scramble st ! i)"
  have len: "length (scramble st) = k" using inv by (simp add: stepwise_def)
  have alpha: "?f i \<in> set [''R'', ''U'', ''F'']" if "i < k" for i
    using stepwise_all [OF inv that] by (auto simp: ok2x2_def)
  have adj: "?f (Suc i) \<noteq> ?f i" if "Suc i < k" for i
    using stepwise_adjacent [OF inv that] by (auto simp: ok2x2_def)
  have two: "?f (i + 2) \<noteq> ?f i \<and> ?f (i + 2) = third_face (?f i) (?f (i + 1))" if "i + 2 < k" for i
  proof -
    from stepwise_two_back [OF inv that]
    have c: "?f (i + 2) \<noteq> ?f i" "?f (i + 2) \<noteq> ?f (i + 1)" by (auto simp: ok2x2_def)
    from that have "Suc i < k" by simp
    from adj [OF this] have ab: "?f i \<noteq> ?f (i + 1)" by simp
    from that have "i < k" "i + 1 < k" by simp_all
    with that have "?f i \<in> set [''R'', ''U'', ''F'']" "?f (i + 1) \<in> set [''R'', ''U'', ''F'']"
      "?f (i + 2) \<in> set [''R'', ''U'', ''F'']" by (blast intro: alpha)+
    from third_face_unique [OF this ab c] c(1) show ?thesis by simp
  qed
  from alpha adj two k show ?thesis
    unfolding shape2x2_def len by blast
qed

lemma generate2x2_succeeds: "succeeds generate2x2Scramble (\<lambda>s. shape2x2 (tokens s))"
  unfolding generate2x2Scramble_def
proof (rule succeeds_bindR [OF succeeds_getRandomInt])
  show "(9::int) \<le> 11" by simp
next
  fix moveCount :: int assume mc: "9 \<le> moveCount \<and> moveCount \<le> 11"
  show "succeeds (bindR (forEach [0..<nat moveCount] step2x2 start) (\<lambda>st. returnR (join (scramble st))))
          (\<lambda>s. shape2x2 (tokens s))"
  proof (rule succeeds_bindR [where P = "stepwise ok2x2 (nat moveCount)"])
    show "succeeds (forEach [0..<nat moveCount] step2x2 start) (stepwise ok2x2 (nat moveCount))"
      by (rule forEach_upt_succeeds [where I = "stepwise ok2x2"])
        (rule stepwise_start, rule step2x2_succeeds)
  next
    fix st assume inv: "stepwise ok2x2 (nat moveCount) st"
    then have tk: "tokens (join (scramble st)) = scramble st"
      by (simp add: stepwise_def tokens_join)
    from mc have "9 \<le> nat moveCount" "nat moveCount \<le> 11" by linarith+
    with inv have "shape2x2 (scramble st)" by (rule stepwise_shape2x2)
    then show "succeeds (returnR (join (scramble st))) (\<lambda>s. shape2x2 (tokens s))"
      by (intro succeeds_returnR) (simp add: tk)
  qed
qed

subsection \<open>Skewb and Pyraminx\<close>

lemma succeeds_True: "succeeds m P \<Longrightarrow> succeeds m (\<lambda>_. True)"
  by (erule succeeds_weaken) simp

lemma stepSkewb_succeeds: "succeeds (stepSkewb st) (\<lambda>_. True)"
proof -
  let ?corners = "[''R'', ''U'', ''L'', ''B'']"
  have ne: "filter (\<lambda>corner. corner \<noteq> lastMove st) ?corners \<noteq> []"
    by (rule filter_neq_not_Nil) simp_all
  have ret: "succeeds (returnR x) (\<lambda>_. True)" for x :: "'b"
    by (rule succeeds_returnR) simp
  have adj: "succeeds (bindR Math_random (\<lambda>r.
                   if r < 7 / 10 then
                     (let adjacentOptions = filter (\<lambda>corner. corner \<noteq> secondLastMove st) adjacent in
                      if length adjacentOptions > 0 then
                        bindR (getRandomElement adjacentOptions) (\<lambda>corner.
                        bindR Math_random (\<lambda>r'.
                        returnR (Some (corner, if r' < 55 / 100 then prime else ''''))))
                      else returnR None)
                   else returnR None)) (\<lambda>_. True)" for adjacent
  proof (rule succeeds_bindR [OF succeeds_Math_random], rule succeeds_if)
    show "succeeds (let adjacentOptions = filter (\<lambda>corner. corner \<noteq> secondLastMove st) adjacent in
                      if length adjacentOptions > 0 then
                        bindR (getRandomElement adjacentOptions) (\<lambda>corner.
                        bindR Math_random (\<lambda>r'.
                        returnR (Some (corner, if r' < 55 / 100 then prime else ''''))))
                      else returnR None) (\<lambda>_. True)"
      unfolding Let_def
    proof (rule succeeds_if)
      assume "length (filter (\<lambda>corner. corner \<noteq> secondLastMove st) adjacent) > 0"
      then have "filter (\<lambda>corner. corner \<noteq> secondLastMove st) adjacent \<noteq> []" by simp
      then show "succeeds (bindR (getRandomElement (filter (\<lambda>corner. corner \<noteq> secondLastMove st) adjacent))
          (\<lambda>corner. bindR Math_random (\<lambda>r'.
             returnR (Some (corner, if r' < 55 / 100 then prime else ''''))))) (\<lambda>_. True)"
        by (intro succeeds_bindR [OF succeeds_getRandomElement]
            succeeds_bindR [OF succeeds_Math_random] ret)
    qed (rule ret)
  qed (rule ret)
  have first: "succeeds (case (if lastMove st \<noteq> '''' then adjacentCorners (lastMove st) else None) of
               None \<Rightarrow> returnR None
             | Some adjacent \<Rightarrow>
                 bindR Math_random (\<lambda>r.
                   if r < 7 / 10 then
                     (let adjacentOptions = filter (\<lambda>corner. corner \<noteq> secondLastMove st) adjacent in
                      if length adjacentOptions > 0 then
                        bindR (getRandomElement adjacentOptions) (\<lambda>corner.
                        bindR Math_random (\<lambda>r'.
                        returnR (Some (corner, if r' < 55 / 100 then prime else ''''))))
                      else returnR None)
                   else returnR None)) (\<lambda>_. True)" for adjacentCorners :: "string \<rightharpoonup> string list"
    by (cases "if lastMove st \<noteq> '''' then adjacentCorners (lastMove st) else None")
      (simp_all only: option.case ret adj)
  note first = first [of "map_of
            [(''R'', [''U'', ''L'', ''B'']), (''U'', [''R'', ''L'', ''B'']),
             (''L'', [''R'', ''U'', ''B'']), (''B'', [''R'', ''U'', ''L''])]"]
  have second: "succeeds (case adjacent of
        Some (corner, modifier) \<Rightarrow> returnR (push_move st corner modifier)
      | None \<Rightarrow>
          bindR (getRandomElement (filter (\<lambda>corner. corner \<noteq> lastMove st) ?corners)) (\<lambda>corner.
          bindR Math_random (\<lambda>r.
          returnR (push_move st corner (if r < 55 / 100 then prime else ''''))))) (\<lambda>_. True)"
    for adjacent
  proof (cases adjacent)
    case None
    have "succeeds (bindR (getRandomElement (filter (\<lambda>corner. corner \<noteq> lastMove st) ?corners)) (\<lambda>corner.
          bindR Math_random (\<lambda>r.
          returnR (push_move st corner (if r < 55 / 100 then prime else ''''))))) (\<lambda>_. True)"
      by (intro succeeds_bindR [OF succeeds_getRandomElement [OF ne]]
          succeeds_bindR [OF succeeds_Math_random] ret)
    with None show ?thesis by simp
  next
    case (Some p)
    then show ?thesis by (cases p) (simp add: ret)
  qed
  show ?thesis
    unfolding stepSkewb_def Let_def
    by (rule succeeds_bindR [OF first [unfolded Let_def]]) (rule second)
qed

lemma generateSkewb_succeeds: "succeeds generateSkewbScramble (\<lambda>_. True)"
  unfolding generateSkewbScramble_def
proof (rule succeeds_bindR [where P = "\<lambda>_. True"])
  show "succeeds (forEach [0..<9] (\<lambda>i. stepSkewb) start) (\<lambda>_. True)"
    by (rule forEach_upt_succeeds [where I = "\<lambda>_ _. True"]) (simp, rule stepSkewb_succeeds)
qed (simp add: succeeds_returnR)

lemma pyraminx_step_succeeds: "succeeds (pyraminx_step moveCount i st) (\<lambda>_. True)"
proof -
  let ?regular = "[''R'', ''L'', ''U'', ''B'']"
  let ?patterns = "[(''R'', ''L''), (''U'', ''B''), (''R'', ''U''), (''L'', ''B'')]"
  have ret: "succeeds (returnR x) (\<lambda>_. True)" for x :: "'b"
    by (rule succeeds_returnR) simp
  have fb: "filter (\<lambda>move. move \<noteq> lastMove st) ?regular \<noteq> []"
    by (rule filter_neq_not_Nil) simp_all
  have ne: "(if length av = 0 then filter (\<lambda>move. move \<noteq> lastMove st) ?regular else av) \<noteq> []" for av
    using fb by (cases "av = []") simp_all
  have first: "succeeds (if i mod 3 = 0 \<and> int i + 1 < moveCount then
               bindR (getRandomElement ?patterns) (\<lambda>pattern.
                 if fst pattern \<noteq> lastMove st then
                   bindR (getRandomElement ['''', prime]) (\<lambda>mod0.
                   bindR (getRandomElement ['''', prime]) (\<lambda>mod1.
                   returnR (Some (1,
                     \<lparr>scramble = scramble st @ [fst pattern @ mod0, snd pattern @ mod1],
                      lastMove = snd pattern, secondLastMove = fst pattern\<rparr>))))
                 else returnR None)
             else returnR None) (\<lambda>_. True)"
    by (intro succeeds_if succeeds_bindR [OF succeeds_getRandomElement] ret) simp_all
  have second: "succeeds (case applied of
        Some skipped \<Rightarrow> returnR skipped
      | None \<Rightarrow>
          bindR (getRandomElement (if length av = 0
                 then filter (\<lambda>move. move \<noteq> lastMove st) ?regular else av)) (\<lambda>move.
          bindR Math_random (\<lambda>r.
          returnR (0, push_move st move (if r < 6 / 10 then prime else ''''))))) (\<lambda>_. True)"
    for applied :: "(nat \<times> tracking) option" and av
  proof (cases applied)
    case None
    have "succeeds (bindR (getRandomElement (if length av = 0
                 then filter (\<lambda>move. move \<noteq> lastMove st) ?regular else av)) (\<lambda>move.
          bindR Math_random (\<lambda>r.
          returnR (0 :: nat, push_move st move (if r < 6 / 10 then prime else ''''))))) (\<lambda>_. True)"
      by (intro succeeds_bindR [OF succeeds_getRandomElement [OF ne]]
          succeeds_bindR [OF succeeds_Math_random] ret)
    with None show ?thesis by simp
  next
    case (Some p)
    then show ?thesis by (simp add: ret)
  qed
  show ?thesis
    unfolding pyraminx_step_def Let_def
    by (rule succeeds_bindR [OF first]) (rule second)
qed

lemma pyraminx_loop_returns:
  "unit_draws rs \<Longrightarrow> \<exists>st' n. pyraminx_loop moveCount i st rs = Inr (st', sdrop n rs)"
proof (induction moveCount i st rs rule: pyraminx_loop.induct)
  case (1 moveCount i st rs)
  show ?case
  proof (cases "int i < moveCount")
    case True
    from succeedsD [OF pyraminx_step_succeeds "1.prems"]
    obtain x n where step: "pyraminx_step moveCount i st rs = Inr (x, sdrop n rs)" by blast
    obtain skipped st' where x: "x = (skipped, st')" by (cases x)
    from "1.IH" [OF True step [unfolded x] refl refl] unit_draws_sdrop [OF "1.prems"]
    obtain st'' k where "pyraminx_loop moveCount (i + skipped + 1) st' (sdrop n rs)
        = Inr (st'', sdrop k (sdrop n rs))"
      by blast
    with True step x show ?thesis
      by (subst pyraminx_loop.simps) (auto simp: sdrop_add)
  next
    case False
    then have "pyraminx_loop moveCount i st rs = Inr (st, sdrop 0 rs)"
      by (subst pyraminx_loop.simps) simp
    then show ?thesis by blast
  qed
qed

lemma tips_loop_succeeds: "succeeds (tips_loop n sc usedTips) (\<lambda>_. True)"
proof (induction n arbitrary: sc usedTips)
  case 0
  show ?case by (simp add: succeeds_returnR)
next
  case (Suc n)
  let ?tips = "filter (\<lambda>tip. tip \<notin> usedTips) [''r'', ''l'', ''u'', ''b'']"
  show ?case
  proof (cases "?tips = []")
    case True
    then show ?thesis by (simp add: succeeds_returnR)
  next
    case False
    have "succeeds (bindR (getRandomElement ?tips) (\<lambda>tip.
        bindR (getRandomElement ['''', prime]) (\<lambda>modifier.
        tips_loop n (sc @ [tip @ modifier]) (insert tip usedTips)))) (\<lambda>_. True)"
      by (intro succeeds_bindR [OF succeeds_getRandomElement] Suc.IH False) simp
    with False show ?thesis by (simp add: Let_def)
  qed
qed

lemma generatePyraminx_succeeds: "succeeds generatePyraminxScramble (\<lambda>_. True)"
proof -
  have loop: "succeeds (pyraminx_loop moveCount 0 start) (\<lambda>_. True)" for moveCount
    by (rule succeedsI) (use pyraminx_loop_returns in blast)
  have base: "succeeds pyraminx_base (\<lambda>_. True)"
    unfolding pyraminx_base_def
    by (rule succeeds_bindR [OF succeeds_getRandomInt]) (simp, rule loop)
  show ?thesis
    unfolding generatePyraminxScramble_def
    by (intro succeeds_bindR [OF base] succeeds_bindR [OF succeeds_getRandomInt]
        succeeds_bindR [OF tips_loop_succeeds] succeeds_returnR) simp_all
qed

subsection \<open>The claims on the 3x3 and 2x2 generators\<close>

text \<open>
  Claim C5. On every stream of draws from the unit interval \<open>generate3x3Scramble\<close>, and with
  it \<open>generateScramble\<close> for 3x3, 3x3 BLD and 3x3 OH, returns exactly 20 space-separated
  tokens; the face letters of two consecutive tokens are never on the same axis (R/L, U/D,
  F/B, as the table \<open>sameAxis\<close> has them); and from position 2 on the face letter of a token
  differs from the face letter two positions back. The moves taken on the bias path of every
  fifth index are among the tokens the statement speaks of.
\<close>

theorem generate3x3_twenty_no_axis_repeat:
  assumes "unit_draws rs"
  shows "\<exists>s rs'. generate3x3Scramble rs = Inr (s, rs')
           \<and> generateScramble ''3x3'' rs = Inr (s, rs')
           \<and> generateScramble ''3x3 BLD'' rs = Inr (s, rs')
           \<and> generateScramble ''3x3 OH'' rs = Inr (s, rs')
           \<and> length (tokens s) = 20
           \<and> (\<forall>i. Suc i < 20 \<longrightarrow>
                \<not> on_same_axis (face_letter (tokens s ! i)) (face_letter (tokens s ! Suc i)))
           \<and> (\<forall>i. 2 \<le> i \<and> i < 20 \<longrightarrow>
                face_letter (tokens s ! i) \<noteq> face_letter (tokens s ! (i - 2)))"
proof -
  from succeedsD [OF generate3x3_succeeds assms]
  obtain s n where run: "generate3x3Scramble rs = Inr (s, sdrop n rs)" and sh: "shape3x3 (tokens s)"
    by blast
  from sh have len: "length (tokens s) = 20"
    and adj: "\<And>i. Suc i < 20 \<Longrightarrow>
        \<not> on_same_axis (face_letter (tokens s ! i)) (face_letter (tokens s ! Suc i))"
    and two: "\<And>i. i + 2 < 20 \<Longrightarrow> face_letter (tokens s ! (i + 2)) \<noteq> face_letter (tokens s ! i)"
    by (simp_all add: shape3x3_def)
  have twoback: "face_letter (tokens s ! i) \<noteq> face_letter (tokens s ! (i - 2))" if "2 \<le> i" "i < 20" for i
  proof -
    from that have "i - 2 + 2 = i" and "i - 2 + 2 < 20" by simp_all
    with two [of "i - 2"] show ?thesis by simp
  qed
  have "generateScramble ''3x3'' rs = Inr (s, sdrop n rs)"
    "generateScramble ''3x3 BLD'' rs = Inr (s, sdrop n rs)"
    "generateScramble ''3x3 OH'' rs = Inr (s, sdrop n rs)"
    using run by (simp_all add: generateScramble_def generate3x3BLDScramble_def generate3x3OHScramble_def)
  with run len adj twoback show ?thesis by blast
qed

theorem generate3x3_twenty_no_axis_repeat_witness:
  "unit_draws (sconst (1 / 2)) \<and>
   (\<exists>s rs'. generate3x3Scramble (sconst (1 / 2)) = Inr (s, rs')
           \<and> generateScramble ''3x3'' (sconst (1 / 2)) = Inr (s, rs')
           \<and> generateScramble ''3x3 BLD'' (sconst (1 / 2)) = Inr (s, rs')
           \<and> generateScramble ''3x3 OH'' (sconst (1 / 2)) = Inr (s, rs')
           \<and> length (tokens s) = 20
           \<and> (\<forall>i. Suc i < 20 \<longrightarrow>
                \<not> on_same_axis (face_letter (tokens s ! i)) (face_letter (tokens s ! Suc i)))
           \<and> (\<forall>i. 2 \<le> i \<and> i < 20 \<longrightarrow>
                face_letter (tokens s ! i) \<noteq> face_letter (tokens s ! (i - 2))))"
proof -
  have u: "unit_draws (sconst (1 / 2))" by (simp add: unit_draws_sconst)
  from generate3x3_twenty_no_axis_repeat [OF u] u show ?thesis by blast
qed

text \<open>
  Claim C9. On every stream of draws from the unit interval \<open>generateScramble\<close> for 2x2
  returns between 9 and 11 tokens with face letters among R, U and F; the face letter of a
  token differs from the one before it and from the one two positions back, so that from the
  third token on it is the one face the two tokens before it leave over, \<open>third_face\<close> of
  them: past the first two faces only the length and the modifiers depend on the draws.
\<close>

theorem generate2x2_third_face_determined:
  assumes "unit_draws rs"
  shows "\<exists>s rs'. generateScramble ''2x2'' rs = Inr (s, rs')
           \<and> 9 \<le> length (tokens s) \<and> length (tokens s) \<le> 11
           \<and> (\<forall>i<length (tokens s). face_letter (tokens s ! i) \<in> set [''R'', ''U'', ''F''])
           \<and> (\<forall>i. Suc i < length (tokens s) \<longrightarrow>
                face_letter (tokens s ! Suc i) \<noteq> face_letter (tokens s ! i))
           \<and> (\<forall>i. i + 2 < length (tokens s) \<longrightarrow>
                face_letter (tokens s ! (i + 2)) \<noteq> face_letter (tokens s ! i) \<and>
                face_letter (tokens s ! (i + 2)) =
                  third_face (face_letter (tokens s ! i)) (face_letter (tokens s ! (i + 1))))"
proof -
  from succeedsD [OF generate2x2_succeeds assms]
  obtain s n where run: "generate2x2Scramble rs = Inr (s, sdrop n rs)" and sh: "shape2x2 (tokens s)"
    by blast
  from run have "generateScramble ''2x2'' rs = Inr (s, sdrop n rs)"
    by (simp add: generateScramble_def)
  with sh show ?thesis unfolding shape2x2_def by blast
qed

theorem generate2x2_third_face_determined_witness:
  "unit_draws (sconst (1 / 2)) \<and>
   (\<exists>s rs'. generateScramble ''2x2'' (sconst (1 / 2)) = Inr (s, rs')
           \<and> 9 \<le> length (tokens s) \<and> length (tokens s) \<le> 11
           \<and> (\<forall>i<length (tokens s). face_letter (tokens s ! i) \<in> set [''R'', ''U'', ''F''])
           \<and> (\<forall>i. Suc i < length (tokens s) \<longrightarrow>
                face_letter (tokens s ! Suc i) \<noteq> face_letter (tokens s ! i))
           \<and> (\<forall>i. i + 2 < length (tokens s) \<longrightarrow>
                face_letter (tokens s ! (i + 2)) \<noteq> face_letter (tokens s ! i) \<and>
                face_letter (tokens s ! (i + 2)) =
                  third_face (face_letter (tokens s ! i)) (face_letter (tokens s ! (i + 1)))))"
proof -
  have u: "unit_draws (sconst (1 / 2))" by (simp add: unit_draws_sconst)
  from generate2x2_third_face_determined [OF u] u show ?thesis by blast
qed

subsection \<open>Rejection loops\<close>

lemma psafeI:
  "(\<And>rs r. unit_draws rs \<Longrightarrow> m rs = Some r \<Longrightarrow> \<exists>x n. r = Inr (x, sdrop n rs) \<and> P x) \<Longrightarrow> psafe m P"
  unfolding psafe_def by blast

lemma psafeD:
  "psafe m P \<Longrightarrow> unit_draws rs \<Longrightarrow> m rs = Some r \<Longrightarrow> \<exists>x n. r = Inr (x, sdrop n rs) \<and> P x"
  unfolding psafe_def by blast

lemma pdefinedI: "(\<And>rs. unit_draws rs \<Longrightarrow> fair f rs \<Longrightarrow> m rs \<noteq> None) \<Longrightarrow> pdefined m f"
  unfolding pdefined_def by blast

lemma pdefinedD: "pdefined m f \<Longrightarrow> unit_draws rs \<Longrightarrow> fair f rs \<Longrightarrow> \<exists>r. m rs = Some r"
  unfolding pdefined_def by blast

lemma fair_sdrop: "fair m rs \<Longrightarrow> fair m (sdrop n rs)"
  unfolding fair_def
proof (intro allI impI)
  fix n' j assume f: "\<forall>n j. j < m \<longrightarrow> (\<exists>k. \<lfloor>rs !! (n + k) * real m\<rfloor> = int j)" and "j < m"
  then obtain k where "\<lfloor>rs !! ((n + n') + k) * real m\<rfloor> = int j" by blast
  then have "\<lfloor>sdrop n rs !! (n' + k) * real m\<rfloor> = int j" by (simp add: sdrop_snth add.assoc)
  then show "\<exists>k. \<lfloor>sdrop n rs !! (n' + k) * real m\<rfloor> = int j" ..
qed

lemma fair_hits: "fair m rs \<Longrightarrow> j < m \<Longrightarrow> \<exists>k. nat \<lfloor>rs !! k * real m\<rfloor> = j"
proof -
  assume "fair m rs" "j < m"
  then obtain k where "\<lfloor>rs !! (0 + k) * real m\<rfloor> = int j" unfolding fair_def by blast
  then have "nat \<lfloor>rs !! k * real m\<rfloor> = j" by simp
  then show ?thesis ..
qed

lemma getRandomElement_eq:
  assumes "unit_draws rs" "array \<noteq> []"
  shows "getRandomElement array rs = Inr (array ! nat \<lfloor>shd rs * real (length array)\<rfloor>, stl rs)"
    and "nat \<lfloor>shd rs * real (length array)\<rfloor> < length array"
proof -
  from assms have "0 \<le> shd rs" "shd rs < 1" "0 < length array"
    by (simp_all add: unit_draws_shd)
  from floor_scale_bounds [OF this]
  have b: "0 \<le> \<lfloor>shd rs * real (length array)\<rfloor> \<and> \<lfloor>shd rs * real (length array)\<rfloor> < int (length array)" .
  then show "getRandomElement array rs = Inr (array ! nat \<lfloor>shd rs * real (length array)\<rfloor>, stl rs)"
    by (simp add: getRandomElement_def bindR_def Math_random_def returnR_def Let_def)
  from b show "nat \<lfloor>shd rs * real (length array)\<rfloor> < length array" by linarith
qed

lemma doWhile_safe:
  assumes ne: "faces \<noteq> []"
  shows "psafe (doWhile faces again) (\<lambda>face. face \<in> set faces \<and> \<not> again face)"
proof (rule psafeI)
  fix rs r
  assume u: "unit_draws rs" and run: "doWhile faces again rs = Some r"
  let ?P = "\<lambda>faces again rs r. unit_draws rs \<longrightarrow> faces \<noteq> [] \<longrightarrow>
        (\<exists>face n. r = Inr (face, sdrop n rs) \<and> face \<in> set faces \<and> \<not> again face)"
  have "?P faces again rs r"
  proof (rule doWhile.raw_induct [where P = ?P, OF _ run])
    fix loop :: "'a list \<Rightarrow> ('a \<Rightarrow> bool) \<Rightarrow> 'a pgen" and faces again rs r
    assume IH: "\<And>faces again rs r. loop faces again rs = Some r \<Longrightarrow> ?P faces again rs r"
      and body: "(case getRandomElement faces rs of Inl e \<Rightarrow> Some (Inl e)
        | Inr (face, rs') \<Rightarrow> if again face then loop faces again rs' else Some (Inr (face, rs')))
        = Some r"
    show "?P faces again rs r"
    proof (intro impI)
      assume u: "unit_draws rs" and ne: "faces \<noteq> []"
      let ?face = "faces ! nat \<lfloor>shd rs * real (length faces)\<rfloor>"
      note g = getRandomElement_eq [OF u ne]
      from g(2) have mem: "?face \<in> set faces" by simp
      show "\<exists>face n. r = Inr (face, sdrop n rs) \<and> face \<in> set faces \<and> \<not> again face"
      proof (cases "again ?face")
        case True
        with body g(1) have "loop faces again (stl rs) = Some r" by simp
        from IH [OF this] unit_draws_stl [OF u] ne
        obtain face n where "r = Inr (face, sdrop n (stl rs))" "face \<in> set faces" "\<not> again face"
          by blast
        then have "r = Inr (face, sdrop (Suc n) rs) \<and> face \<in> set faces \<and> \<not> again face"
          by simp
        then show ?thesis by blast
      next
        case False
        with body g(1) have "r = Inr (?face, sdrop 1 rs)" by simp
        with mem False show ?thesis by blast
      qed
    qed
  qed
  with u ne show "\<exists>face n. r = Inr (face, sdrop n rs) \<and> face \<in> set faces \<and> \<not> again face"
    by blast
qed

lemma doWhile_returns:
  assumes "faces \<noteq> []" "unit_draws rs"
    and "\<not> again (faces ! nat \<lfloor>rs !! k * real (length faces)\<rfloor>)"
  shows "doWhile faces again rs \<noteq> None"
  using assms(2,3)
proof (induction k arbitrary: rs)
  case 0
  from getRandomElement_eq(1) [OF "0.prems"(1) assms(1)] "0.prems"(2)
  show ?case by (subst doWhile.simps) simp
next
  case (Suc k)
  note g = getRandomElement_eq(1) [OF Suc.prems(1) assms(1)]
  show ?case
  proof (cases "again (faces ! nat \<lfloor>shd rs * real (length faces)\<rfloor>)")
    case True
    from Suc.prems(2) have "\<not> again (faces ! nat \<lfloor>stl rs !! k * real (length faces)\<rfloor>)"
      by simp
    from Suc.IH [OF unit_draws_stl [OF Suc.prems(1)] this]
    have "doWhile faces again (stl rs) \<noteq> None" .
    with g True show ?thesis by (subst doWhile.simps) simp
  next
    case False
    with g show ?thesis by (subst doWhile.simps) simp
  qed
qed

lemma doWhile_defined:
  assumes "faces \<noteq> []" and "\<exists>j<length faces. \<not> again (faces ! j)"
  shows "pdefined (doWhile faces again) (length faces)"
proof (rule pdefinedI)
  fix rs assume u: "unit_draws rs" and f: "fair (length faces) rs"
  from assms(2) obtain j where j: "j < length faces" "\<not> again (faces ! j)" by blast
  from fair_hits [OF f j(1)] obtain k where "nat \<lfloor>rs !! k * real (length faces)\<rfloor> = j" ..
  with j(2) have "\<not> again (faces ! nat \<lfloor>rs !! k * real (length faces)\<rfloor>)" by simp
  with assms(1) u show "doWhile faces again rs \<noteq> None" by (rule doWhile_returns)
qed

lemma repeatP_safe:
  assumes step: "\<And>k s. I k s \<Longrightarrow> psafe (body s) (I (Suc k))"
  shows "I j s \<Longrightarrow> psafe (repeatP n body s) (I (j + n))"
proof (induction n arbitrary: j s)
  case 0
  show ?case
  proof (rule psafeI)
    fix rs r assume "repeatP 0 body s rs = Some r"
    then have "r = Inr (s, sdrop 0 rs) \<and> I (j + 0) s" using 0 by simp
    then show "\<exists>x n. r = Inr (x, sdrop n rs) \<and> I (j + 0) x" by blast
  qed
next
  case (Suc n)
  show ?case
  proof (rule psafeI)
    fix rs r assume u: "unit_draws rs" and run: "repeatP (Suc n) body s rs = Some r"
    then obtain r1 where b: "body s rs = Some r1" by (cases "body s rs") auto
    from psafeD [OF step [OF Suc.prems] u b]
    obtain s' k where r1: "r1 = Inr (s', sdrop k rs)" and I': "I (Suc j) s'" by blast
    from run b r1 have "repeatP n body s' (sdrop k rs) = Some r" by simp
    from psafeD [OF Suc.IH [OF I'] unit_draws_sdrop [OF u] this]
    obtain x m where "r = Inr (x, sdrop m (sdrop k rs))" "I (Suc j + n) x" by blast
    then have "r = Inr (x, sdrop (k + m) rs) \<and> I (j + Suc n) x" by (simp add: sdrop_add)
    then show "\<exists>x n'. r = Inr (x, sdrop n' rs) \<and> I (j + Suc n) x" by blast
  qed
qed

lemma repeatP_defined:
  assumes step: "\<And>k s. I k s \<Longrightarrow> psafe (body s) (I (Suc k))"
    and def: "\<And>k s. I k s \<Longrightarrow> pdefined (body s) f"
  shows "I j s \<Longrightarrow> pdefined (repeatP n body s) f"
proof (induction n arbitrary: j s)
  case 0
  show ?case by (rule pdefinedI) simp
next
  case (Suc n)
  show ?case
  proof (rule pdefinedI)
    fix rs assume u: "unit_draws rs" and f: "fair f rs"
    from pdefinedD [OF def [OF Suc.prems] u f] obtain r1 where b: "body s rs = Some r1" ..
    from psafeD [OF step [OF Suc.prems] u b]
    obtain s' k where r1: "r1 = Inr (s', sdrop k rs)" and I': "I (Suc j) s'" by blast
    from pdefinedD [OF Suc.IH [OF I'] unit_draws_sdrop [OF u] fair_sdrop [OF f]]
    obtain r where "repeatP n body s' (sdrop k rs) = Some r" ..
    with b r1 show "repeatP (Suc n) body s rs \<noteq> None" by simp
  qed
qed

subsection \<open>The custom steps\<close>

lemma again3x3_R: "again3x3 lf la ''R'' \<longleftrightarrow> lf = ''R'' \<or> lf = ''L'' \<or> la = ''R'' \<or> la = ''L''"
  by (auto simp: again3x3_def opposites_def sameAxis_def split: if_splits)

lemma again3x3_U: "again3x3 lf la ''U'' \<longleftrightarrow> lf = ''U'' \<or> lf = ''D'' \<or> la = ''U'' \<or> la = ''D''"
  by (auto simp: again3x3_def opposites_def sameAxis_def split: if_splits)

lemma again3x3_F: "again3x3 lf la ''F'' \<longleftrightarrow> lf = ''F'' \<or> lf = ''B'' \<or> la = ''F'' \<or> la = ''B''"
  by (auto simp: again3x3_def opposites_def sameAxis_def split: if_splits)

lemma again3x3_escape:
  "\<not> again3x3 lf la ''R'' \<or> \<not> again3x3 lf la ''U'' \<or> \<not> again3x3 lf la ''F''"
  unfolding again3x3_R again3x3_U again3x3_F by auto

lemma custom3x3_alphabet_cases:
  assumes "custom3x3_alphabet difficulty = (faces, modifiers)"
  shows "faces = [''R'', ''L'', ''U'', ''D'', ''F'', ''B''] \<or>
         faces = [''R'', ''L'', ''U'', ''D'', ''F'', ''B'', ''M'', ''E'', ''S'']"
    and "set modifiers \<subseteq> set ['''', prime, ''2'', ''w'', ''w'' @ prime, ''w2'']"
    and "modifiers \<noteq> []"
  using assms by (auto simp: custom3x3_alphabet_def Let_def split: if_splits)

lemma custom3x3_faces:
  assumes "custom3x3_alphabet difficulty = (faces, modifiers)"
  shows "faces \<noteq> []" and "set faces \<subseteq> set [''R'', ''L'', ''U'', ''D'', ''F'', ''B'', ''M'', ''E'', ''S'']"
    and "\<exists>j<length faces. \<not> again3x3 lf la (faces ! j)"
proof -
  note c = custom3x3_alphabet_cases(1) [OF assms]
  from c show "faces \<noteq> []" by auto
  from c show "set faces \<subseteq> set [''R'', ''L'', ''U'', ''D'', ''F'', ''B'', ''M'', ''E'', ''S'']" by auto
  from c have "0 < length faces \<and> faces ! 0 = ''R''" "2 < length faces \<and> faces ! 2 = ''U''"
    "4 < length faces \<and> faces ! 4 = ''F''"
    by auto
  with again3x3_escape [of lf la] show "\<exists>j<length faces. \<not> again3x3 lf la (faces ! j)"
    by metis
qed

lemma over_alphabet_wf:
  assumes "set faces \<subseteq> set [''R'', ''L'', ''U'', ''D'', ''F'', ''B'', ''M'', ''E'', ''S'']"
    and "set modifiers \<subseteq> set ['''', prime, ''2'', ''w'', ''w'' @ prime, ''w2'']"
    and "over_alphabet faces modifiers t"
  shows "wf_token t"
proof -
  from assms(3) obtain f m where "f \<in> set faces" "m \<in> set modifiers" and t: "t = f @ m"
    unfolding over_alphabet_def by blast
  with assms(1,2) have "f \<in> set [''R'', ''L'', ''U'', ''D'', ''F'', ''B'', ''M'', ''E'', ''S'']"
    "m \<in> set ['''', prime, ''2'', ''w'', ''w'' @ prime, ''w2'']"
    by blast+
  from face_token [OF this] show ?thesis
    unfolding t wf_token_def by auto
qed

lemma custom_inv_tokens:
  assumes "set faces \<subseteq> set [''R'', ''L'', ''U'', ''D'', ''F'', ''B'', ''M'', ''E'', ''S'']"
    and "set modifiers \<subseteq> set ['''', prime, ''2'', ''w'', ''w'' @ prime, ''w2'']"
    and "custom_inv faces modifiers k st"
  shows "tokens (join (moves_out st)) = moves_out st"
proof -
  from assms(3) have "list_all (over_alphabet faces modifiers) (moves_out st)"
    by (simp add: custom_inv_def)
  then have "list_all wf_token (moves_out st)"
    unfolding list_all_iff using over_alphabet_wf [OF assms(1,2)] by blast
  then show ?thesis by (rule tokens_join)
qed

lemma custom_inv_start: "custom_inv faces modifiers 0 custom_start"
  by (simp add: custom_inv_def custom_start_def)

text \<open>A rejection loop followed by the draw of a modifier, as both custom steps have it.\<close>

lemma draw_then_push_safe:
  assumes ne: "faces \<noteq> []" "modifiers \<noteq> []"
    and inv: "custom_inv faces modifiers k st"
    and out: "\<And>face modifier. moves_out (upd face modifier) = moves_out st @ [face @ modifier]"
  shows "psafe (\<lambda>rs. case doWhile faces again rs of
        None \<Rightarrow> None
      | Some (Inl e) \<Rightarrow> Some (Inl e)
      | Some (Inr (face, rs')) \<Rightarrow>
          Some (bindR (getRandomElement modifiers) (\<lambda>modifier. returnR (upd face modifier)) rs'))
     (custom_inv faces modifiers (Suc k))"
proof (rule psafeI)
  fix rs r
  assume u: "unit_draws rs"
    and run: "(case doWhile faces again rs of
        None \<Rightarrow> None
      | Some (Inl e) \<Rightarrow> Some (Inl e)
      | Some (Inr (face, rs')) \<Rightarrow>
          Some (bindR (getRandomElement modifiers) (\<lambda>modifier. returnR (upd face modifier)) rs'))
      = Some r"
  then obtain r1 where d: "doWhile faces again rs = Some r1"
    by (cases "doWhile faces again rs") auto
  from psafeD [OF doWhile_safe [OF ne(1)] u d]
  obtain face n where r1: "r1 = Inr (face, sdrop n rs)" and face: "face \<in> set faces" by blast
  from succeedsD [OF succeeds_getRandomElement [OF ne(2)] unit_draws_sdrop [OF u, of n]]
  obtain modifier m where g: "getRandomElement modifiers (sdrop n rs) = Inr (modifier, sdrop m (sdrop n rs))"
    and md: "modifier \<in> set modifiers"
    by blast
  from run d r1 g have r: "r = Inr (upd face modifier, sdrop (n + m) rs)"
    by (simp add: bindR_def returnR_def sdrop_add)
  from face md have "over_alphabet faces modifiers (face @ modifier)"
    unfolding over_alphabet_def by blast
  with inv have "custom_inv faces modifiers (Suc k) (upd face modifier)"
    by (simp add: custom_inv_def out)
  with r show "\<exists>x n. r = Inr (x, sdrop n rs) \<and> custom_inv faces modifiers (Suc k) x"
    by blast
qed

lemma draw_then_push_defined:
  assumes "faces \<noteq> []" and "\<exists>j<length faces. \<not> again (faces ! j)"
  shows "pdefined (\<lambda>rs. case doWhile faces again rs of
        None \<Rightarrow> None
      | Some (Inl e) \<Rightarrow> Some (Inl e)
      | Some (Inr (face, rs')) \<Rightarrow> Some (f face rs')) (length faces)"
proof (rule pdefinedI)
  fix rs assume "unit_draws rs" "fair (length faces) rs"
  from pdefinedD [OF doWhile_defined [OF assms] this]
  obtain r where "doWhile faces again rs = Some r" ..
  then show "(case doWhile faces again rs of
        None \<Rightarrow> None
      | Some (Inl e) \<Rightarrow> Some (Inl e)
      | Some (Inr (face, rs')) \<Rightarrow> Some (f face rs')) \<noteq> None"
    by (cases r) auto
qed

lemma finish_safe:
  assumes "psafe m P" and "\<And>st. P st \<Longrightarrow> Q (join (out st))"
  shows "psafe (\<lambda>rs. finish out (m rs)) Q"
proof (rule psafeI)
  fix rs r assume u: "unit_draws rs" and run: "finish out (m rs) = Some r"
  then obtain r1 where m: "m rs = Some r1" by (cases "m rs") (auto simp: finish_def)
  from psafeD [OF assms(1) u m] obtain st n where r1: "r1 = Inr (st, sdrop n rs)" and "P st"
    by blast
  from run m r1 have "r = Inr (join (out st), sdrop n rs)" by (simp add: finish_def)
  with assms(2) [OF \<open>P st\<close>] show "\<exists>x n. r = Inr (x, sdrop n rs) \<and> Q x" by blast
qed

lemma finish_defined:
  assumes "pdefined m f"
  shows "pdefined (\<lambda>rs. finish out (m rs)) f"
proof (rule pdefinedI)
  fix rs assume "unit_draws rs" "fair f rs"
  from pdefinedD [OF assms this] obtain r where "m rs = Some r" ..
  then show "finish out (m rs) \<noteq> None"
    by (cases r) (auto simp: finish_def)
qed

subsection \<open>The custom generators\<close>

lemma custom3x3_step_eq:
  "custom3x3_step faces modifiers st =
     (\<lambda>rs. case doWhile faces (again3x3 (lastFace st) (lastAxis st)) rs of
        None \<Rightarrow> None
      | Some (Inl e) \<Rightarrow> Some (Inl e)
      | Some (Inr (face, rs')) \<Rightarrow>
          Some (bindR (getRandomElement modifiers) (\<lambda>modifier.
            returnR \<lparr>moves_out = moves_out st @ [face @ modifier], lastFace = face,
                     lastAxis = (if face \<in> set [''R'', ''L'', ''U'', ''D'', ''F'', ''B'']
                                 then face else lastAxis st)\<rparr>) rs'))"
  by (rule ext) (simp add: custom3x3_step_def)

lemma custom2x2_step_eq:
  "custom2x2_step faces modifiers st =
     (\<lambda>rs. case doWhile faces (\<lambda>face. face = lastFace st) rs of
        None \<Rightarrow> None
      | Some (Inl e) \<Rightarrow> Some (Inl e)
      | Some (Inr (face, rs')) \<Rightarrow>
          Some (bindR (getRandomElement modifiers) (\<lambda>modifier.
            returnR (st\<lparr>moves_out := moves_out st @ [face @ modifier], lastFace := face\<rparr>)) rs'))"
  by (rule ext) (simp add: custom2x2_step_def)

lemma generateCustom3x3_eq:
  assumes "custom3x3_alphabet difficulty = (faces, modifiers)"
  shows "generateCustom3x3Scramble moves difficulty =
     (\<lambda>rs. finish moves_out (repeatP (nat moves) (custom3x3_step faces modifiers) custom_start rs))"
  by (rule ext) (simp add: generateCustom3x3Scramble_def assms)

lemma generateCustom2x2_eq:
  assumes "custom2x2_params moves difficulty = (n, modifiers)"
  shows "generateCustom2x2Scramble moves difficulty =
     (\<lambda>rs. finish moves_out
        (repeatP (nat n) (custom2x2_step [''R'', ''U'', ''F''] modifiers) custom_start rs))"
  by (rule ext) (simp add: generateCustom2x2Scramble_def assms)

lemma generateCustom3x3_safe:
  assumes a: "custom3x3_alphabet difficulty = (faces, modifiers)"
  shows "psafe (generateCustom3x3Scramble moves difficulty)
           (\<lambda>s. length (tokens s) = nat moves \<and> list_all (over_alphabet faces modifiers) (tokens s))"
  unfolding generateCustom3x3_eq [OF a]
proof (rule finish_safe [where P = "custom_inv faces modifiers (nat moves)"])
  have "psafe (repeatP (nat moves) (custom3x3_step faces modifiers) custom_start)
          (custom_inv faces modifiers (0 + nat moves))"
    by (rule repeatP_safe [where I = "custom_inv faces modifiers"], unfold custom3x3_step_eq)
      (rule draw_then_push_safe [OF custom3x3_faces(1) [OF a] custom3x3_alphabet_cases(3) [OF a]],
        simp_all add: custom_inv_start)
  then show "psafe (repeatP (nat moves) (custom3x3_step faces modifiers) custom_start)
          (custom_inv faces modifiers (nat moves))"
    by simp
next
  fix st assume inv: "custom_inv faces modifiers (nat moves) st"
  from custom_inv_tokens [OF custom3x3_faces(2) [OF a] custom3x3_alphabet_cases(2) [OF a] inv] inv
  show "length (tokens (join (moves_out st))) = nat moves \<and>
        list_all (over_alphabet faces modifiers) (tokens (join (moves_out st)))"
    by (simp add: custom_inv_def)
qed

lemma generateCustom3x3_defined:
  assumes a: "custom3x3_alphabet difficulty = (faces, modifiers)"
  shows "pdefined (generateCustom3x3Scramble moves difficulty) (length faces)"
  unfolding generateCustom3x3_eq [OF a]
proof (rule finish_defined, rule repeatP_defined [where I = "custom_inv faces modifiers" and j = 0])
  fix k st assume "custom_inv faces modifiers k st"
  then show "psafe (custom3x3_step faces modifiers st) (custom_inv faces modifiers (Suc k))"
    unfolding custom3x3_step_eq
    by (intro draw_then_push_safe [OF custom3x3_faces(1) [OF a] custom3x3_alphabet_cases(3) [OF a]])
      simp_all
next
  fix k st
  show "pdefined (custom3x3_step faces modifiers st) (length faces)"
    unfolding custom3x3_step_eq
    by (rule draw_then_push_defined [OF custom3x3_faces(1) [OF a] custom3x3_faces(3) [OF a]])
qed (rule custom_inv_start)

lemma custom2x2_params_cases:
  assumes "custom2x2_params moves difficulty = (n, modifiers)"
  shows "set modifiers \<subseteq> set ['''', prime, ''2'', ''w'', ''w'' @ prime, ''w2'']"
    and "modifiers \<noteq> []"
  using assms by (auto simp: custom2x2_params_def split: if_splits)

lemma generateCustom2x2_safe:
  assumes a: "custom2x2_params moves difficulty = (n, modifiers)"
  shows "psafe (generateCustom2x2Scramble moves difficulty)
           (\<lambda>s. length (tokens s) = nat n \<and>
                 list_all (over_alphabet [''R'', ''U'', ''F''] modifiers) (tokens s))"
  unfolding generateCustom2x2_eq [OF a]
proof (rule finish_safe [where P = "custom_inv [''R'', ''U'', ''F''] modifiers (nat n)"])
  have "psafe (repeatP (nat n) (custom2x2_step [''R'', ''U'', ''F''] modifiers) custom_start)
          (custom_inv [''R'', ''U'', ''F''] modifiers (0 + nat n))"
    by (rule repeatP_safe [where I = "custom_inv [''R'', ''U'', ''F''] modifiers"],
        unfold custom2x2_step_eq)
      (rule draw_then_push_safe [OF _ custom2x2_params_cases(2) [OF a]],
        simp_all add: custom_inv_start)
  then show "psafe (repeatP (nat n) (custom2x2_step [''R'', ''U'', ''F''] modifiers) custom_start)
          (custom_inv [''R'', ''U'', ''F''] modifiers (nat n))"
    by simp
next
  fix st assume inv: "custom_inv [''R'', ''U'', ''F''] modifiers (nat n) st"
  have "set [''R'', ''U'', ''F''] \<subseteq> set [''R'', ''L'', ''U'', ''D'', ''F'', ''B'', ''M'', ''E'', ''S'']"
    by simp
  from custom_inv_tokens [OF this custom2x2_params_cases(1) [OF a] inv] inv
  show "length (tokens (join (moves_out st))) = nat n \<and>
        list_all (over_alphabet [''R'', ''U'', ''F''] modifiers) (tokens (join (moves_out st)))"
    by (simp add: custom_inv_def)
qed

lemma generateCustom2x2_defined:
  assumes a: "custom2x2_params moves difficulty = (n, modifiers)"
  shows "pdefined (generateCustom2x2Scramble moves difficulty) 3"
  unfolding generateCustom2x2_eq [OF a]
proof (rule finish_defined,
    rule repeatP_defined [where I = "custom_inv [''R'', ''U'', ''F''] modifiers" and j = 0])
  fix k st assume "custom_inv [''R'', ''U'', ''F''] modifiers k st"
  then show "psafe (custom2x2_step [''R'', ''U'', ''F''] modifiers st)
      (custom_inv [''R'', ''U'', ''F''] modifiers (Suc k))"
    unfolding custom2x2_step_eq
    by (intro draw_then_push_safe [OF _ custom2x2_params_cases(2) [OF a]]) simp_all
next
  fix k and st :: custom_tracking
  have "''R'' \<noteq> ''U''" by simp
  then have "''R'' \<noteq> lastFace st \<or> ''U'' \<noteq> lastFace st" by metis
  then have "[''R'', ''U'', ''F''] ! 0 \<noteq> lastFace st \<or> [''R'', ''U'', ''F''] ! 1 \<noteq> lastFace st"
    by simp
  then have "\<exists>j<length [''R'', ''U'', ''F'']. \<not> [''R'', ''U'', ''F''] ! j = lastFace st"
    by (metis length_Cons less_Suc_eq_0_disj zero_less_Suc One_nat_def)
  then have "pdefined (custom2x2_step [''R'', ''U'', ''F''] modifiers st) (length [''R'', ''U'', ''F''])"
    unfolding custom2x2_step_eq
    by (intro draw_then_push_defined) simp_all
  then show "pdefined (custom2x2_step [''R'', ''U'', ''F''] modifiers st) 3"
    by (simp add: numeral_3_eq_3)
qed (rule custom_inv_start)

text \<open>Streams that repeat a list of draws.\<close>

lemma snth_cycle: "xs \<noteq> [] \<Longrightarrow> cycle xs !! n = xs ! (n mod length xs)"
proof -
  assume ne: "xs \<noteq> []"
  have "cycle xs !! n = shd (sdrop n (cycle xs))" by (simp add: sdrop_simps(1))
  also have "\<dots> = hd (rotate (n mod length xs) xs)" using ne by (simp add: sdrop_cycle)
  also have "\<dots> = xs ! (n mod length xs)" using ne by (simp add: hd_rotate_conv_nth)
  finally show ?thesis .
qed

lemma unit_draws_cycle:
  assumes "xs \<noteq> []" "\<forall>x\<in>set xs. 0 \<le> x \<and> x < 1"
  shows "unit_draws (cycle xs)"
  unfolding unit_draws_def
proof
  fix i
  from assms(1) have "xs ! (i mod length xs) \<in> set xs" by simp
  with assms show "0 \<le> cycle xs !! i \<and> cycle xs !! i < 1" by (simp add: snth_cycle)
qed

lemma fair_cycle:
  assumes "xs \<noteq> []" "\<forall>j<m. \<exists>i<length xs. \<lfloor>xs ! i * real m\<rfloor> = int j"
  shows "fair m (cycle xs)"
  unfolding fair_def
proof (intro allI impI)
  fix n j assume "j < m"
  with assms(2) obtain i where i: "i < length xs" "\<lfloor>xs ! i * real m\<rfloor> = int j" by blast
  from assms(1) obtain L where L: "length xs = Suc L" by (cases xs) auto
  have e: "n + (i + L * n) = i + Suc L * n" by simp
  have "(i + Suc L * n) mod Suc L = i mod Suc L" by (rule mod_mult_self2)
  also have "\<dots> = i" using i(1) unfolding L by simp
  finally have "(n + (i + L * n)) mod length xs = i" unfolding L e .
  with snth_cycle [OF assms(1), of "n + (i + L * n)"]
  have "cycle xs !! (n + (i + L * n)) = xs ! i" by simp
  with i(2) show "\<exists>k. \<lfloor>cycle xs !! (n + k) * real m\<rfloor> = int j" by metis
qed

subsection \<open>Runs on given streams\<close>

lemma doWhile_stuck:
  assumes "faces \<noteq> []" "again (faces ! 0)"
  shows "doWhile faces again (sconst 0) = None"
proof (rule ccontr)
  assume "doWhile faces again (sconst 0) \<noteq> None"
  then obtain r where run: "doWhile faces again (sconst 0) = Some r" by blast
  let ?P = "\<lambda>(faces :: 'a list) again (rs :: rand) (r :: error + 'a \<times> rand).
      \<not> (rs = sconst 0 \<and> faces \<noteq> [] \<and> again (faces ! 0))"
  have "?P faces again (sconst 0) r"
  proof (rule doWhile.raw_induct [where P = ?P, OF _ run])
    fix loop :: "'a list \<Rightarrow> ('a \<Rightarrow> bool) \<Rightarrow> 'a pgen" and faces again rs r
    assume IH: "\<And>faces again rs r. loop faces again rs = Some r \<Longrightarrow> ?P faces again rs r"
      and body: "(case getRandomElement faces rs of Inl e \<Rightarrow> Some (Inl e)
        | Inr (face, rs') \<Rightarrow> if again face then loop faces again rs' else Some (Inr (face, rs')))
        = Some r"
    show "?P faces again rs r"
    proof
      assume a: "rs = sconst 0 \<and> faces \<noteq> [] \<and> again (faces ! 0)"
      then have "getRandomElement faces rs = Inr (faces ! 0, sconst 0)"
        by (simp add: getRandomElement_def bindR_def Math_random_def returnR_def)
      with body a have "loop faces again (sconst 0) = Some r" by simp
      from IH [OF this] a show False by simp
    qed
  qed
  with assms show False by simp
qed

lemma custom2x2_five_easy:
  "generateCustomScramble ''2x2'' (Some 5) (Some ''easy'')
     (0 ## 0 ## 1 / 2 ## 0 ## 0 ## 0 ## 1 / 2 ## 0 ## 0 ## 0 ## sconst 0)
   = Some (Inr (''R U R U R'', sconst 0))"
  by (simp add: generateCustomScramble_def or_default_def generateCustom2x2Scramble_def
      custom2x2_params_def finish_def custom2x2_step_def custom_start_def doWhile.simps
      getRandomElement_def bindR_def Math_random_def returnR_def throwR_def Let_def
      numeral_eq_Suc)

lemma custom2x2_five_easy_stuck:
  "generateCustomScramble ''2x2'' (Some 5) (Some ''easy'') (sconst 0) = None"
proof -
  have first: "doWhile [''R'', ''U'', ''F''] (\<lambda>face. face = '''') (sconst 0) = Some (Inr (''R'', sconst 0))"
    by (subst doWhile.simps)
      (simp add: getRandomElement_def bindR_def Math_random_def returnR_def)
  have second: "doWhile [''R'', ''U'', ''F''] (\<lambda>face. face = ''R'') (sconst 0) = None"
    by (rule doWhile_stuck) simp_all
  show ?thesis
    by (simp add: generateCustomScramble_def or_default_def generateCustom2x2Scramble_def
      custom2x2_params_def finish_def custom2x2_step_def custom_start_def first second
      getRandomElement_def bindR_def Math_random_def returnR_def throwR_def Let_def
      numeral_eq_Suc)
qed

lemma pyraminx_cancel:
  "generateScramble ''Pyraminx''
     (0 ## 1 / 2 ## 0 ## 0 ## 2 / 3 ## 9 / 10 ## 1 / 4 ## 0 ## 0 ## 0 ## 9 / 10 ## 0 ## 0 ##
      9 / 10 ## 0 ## 9 / 10 ## sconst 0)
   = Inr (''R U B U B R L U'', sconst 0)"
  by (simp add: generateScramble_def generatePyraminxScramble_def pyraminx_base_def
      pyraminx_loop.simps pyraminx_step_def start_def push_move_def
      getRandomElement_def getRandomInt_def bindR_def Math_random_def returnR_def throwR_def Let_def)

subsection \<open>The claims on the custom generators\<close>

lemma ramp_unit_fair:
  assumes "0 < m"
  shows "unit_draws (ramp m)" and "fair m (ramp m)"
proof -
  let ?xs = "map (\<lambda>k. real k / real m) [0..<m]"
  from assms have ne: "?xs \<noteq> []" by simp
  have "\<forall>x\<in>set ?xs. 0 \<le> x \<and> x < 1" using assms by auto
  with ne show "unit_draws (ramp m)" unfolding ramp_def by (rule unit_draws_cycle)
  have "\<forall>j<m. \<exists>i<length ?xs. \<lfloor>?xs ! i * real m\<rfloor> = int j"
  proof (intro allI impI)
    fix j assume j: "j < m"
    then have "?xs ! j * real m = real j" by simp
    then have "\<lfloor>?xs ! j * real m\<rfloor> = int j" by simp
    with j show "\<exists>i<length ?xs. \<lfloor>?xs ! i * real m\<rfloor> = int j" by auto
  qed
  with ne show "fair m (ramp m)" unfolding ramp_def by (rule fair_cycle)
qed

lemma psafe_pdefined:
  assumes "psafe m P" "pdefined m f" "unit_draws rs" "fair f rs"
  shows "\<exists>x rs'. m rs = Some (Inr (x, rs')) \<and> P x"
proof -
  from pdefinedD [OF assms(2-4)] obtain r where r: "m rs = Some r" ..
  from psafeD [OF assms(1,3) r] r show ?thesis by blast
qed

lemma psafe_result:
  assumes "psafe m P" "unit_draws rs" "m rs = Some r"
  shows "\<exists>x rs'. r = Inr (x, rs') \<and> P x"
  using psafeD [OF assms] by blast

text \<open>
  Claim C3, as stated: on every random stream \<open>generateCustomScramble("2x2", 5, "easy")\<close>
  returns exactly 8 tokens. The easy rule is \<open>min(moves, 8)\<close>, which leaves 5; and on the
  stream of zeros the second move draws the face R again for ever.
\<close>

theorem custom2x2_five_easy_counterexample:
  "generateCustomScramble ''2x2'' (Some 5) (Some ''easy'')
     (0 ## 0 ## 1 / 2 ## 0 ## 0 ## 0 ## 1 / 2 ## 0 ## 0 ## 0 ## sconst 0)
     = Some (Inr (''R U R U R'', sconst 0))
   \<and> length (tokens ''R U R U R'') = 5
   \<and> length (tokens ''R U R U R'') \<noteq> 8
   \<and> generateCustomScramble ''2x2'' (Some 5) (Some ''easy'') (sconst 0) = None"
  by (simp add: custom2x2_five_easy custom2x2_five_easy_stuck tokens_def)

text \<open>
  Claim C3, amended: on every stream of draws from the unit interval, whenever
  \<open>generateCustomScramble("2x2", 5, "easy")\<close> returns it returns exactly 5 space-separated
  tokens and no error, and it returns on every stream that is fair for the three faces.
\<close>

theorem custom2x2_five_easy_five_tokens:
  assumes "unit_draws rs"
  shows "(\<forall>r. generateCustomScramble ''2x2'' (Some 5) (Some ''easy'') rs = Some r \<longrightarrow>
            (\<exists>s rs'. r = Inr (s, rs') \<and> length (tokens s) = 5))
       \<and> (fair 3 rs \<longrightarrow>
            (\<exists>s rs'. generateCustomScramble ''2x2'' (Some 5) (Some ''easy'') rs = Some (Inr (s, rs'))
               \<and> length (tokens s) = 5))"
proof -
  have p: "custom2x2_params 5 ''easy'' = (5, ['''', prime])"
    by (simp add: custom2x2_params_def)
  have eq: "generateCustomScramble ''2x2'' (Some 5) (Some ''easy'') = generateCustom2x2Scramble 5 ''easy''"
    by (rule ext) (simp add: generateCustomScramble_def or_default_def)
  note safe = generateCustom2x2_safe [OF p]
  note def = generateCustom2x2_defined [OF p]
  show ?thesis
  proof (intro conjI allI impI)
    fix r assume "generateCustomScramble ''2x2'' (Some 5) (Some ''easy'') rs = Some r"
    from psafe_result [OF safe assms this [unfolded eq]]
    show "\<exists>s rs'. r = Inr (s, rs') \<and> length (tokens s) = 5" by auto
  next
    assume "fair 3 rs"
    from psafe_pdefined [OF safe def assms this]
    show "\<exists>s rs'. generateCustomScramble ''2x2'' (Some 5) (Some ''easy'') rs = Some (Inr (s, rs'))
               \<and> length (tokens s) = 5"
      unfolding eq by auto
  qed
qed

theorem custom2x2_five_easy_five_tokens_witness:
  "unit_draws (ramp 3) \<and> fair 3 (ramp 3) \<and>
   (\<exists>s rs'. generateCustomScramble ''2x2'' (Some 5) (Some ''easy'') (ramp 3) = Some (Inr (s, rs'))
      \<and> length (tokens s) = 5)"
proof -
  have u: "unit_draws (ramp 3)" and f: "fair 3 (ramp 3)" by (simp_all add: ramp_unit_fair)
  from custom2x2_five_easy_five_tokens [OF u] u f show ?thesis by blast
qed

text \<open>
  Claim C7. In \<open>generateCustom3x3Scramble\<close>, whatever the difficulty and whatever the last
  face and last axis (the reachable ones among them), some face of the alphabet passes the
  test of the rejection loop. Hence on a stream of draws from the unit interval that is fair
  for the alphabet every loop ends and, for a move count of at least 0, the function returns
  exactly that many tokens; and on any stream of draws from the unit interval a run that
  returns returns that many tokens. Fair streams stand for the streams of probability 1.
\<close>

theorem custom3x3_loop_ends_move_count:
  "(\<exists>face\<in>set (fst (custom3x3_alphabet difficulty)). \<not> again3x3 lastF lastA face)
   \<and> (unit_draws rs \<and> 0 \<le> moves \<longrightarrow>
        (\<forall>r. generateCustom3x3Scramble moves difficulty rs = Some r \<longrightarrow>
           (\<exists>s rs'. r = Inr (s, rs') \<and> int (length (tokens s)) = moves))
      \<and> (fair (length (fst (custom3x3_alphabet difficulty))) rs \<longrightarrow>
           (\<exists>s rs'. generateCustom3x3Scramble moves difficulty rs = Some (Inr (s, rs'))
              \<and> int (length (tokens s)) = moves)))"
proof -
  obtain faces modifiers where a: "custom3x3_alphabet difficulty = (faces, modifiers)"
    by (cases "custom3x3_alphabet difficulty")
  from custom3x3_faces(3) [OF a, of lastF lastA]
  have "\<exists>face\<in>set faces. \<not> again3x3 lastF lastA face" by (metis nth_mem)
  moreover have "\<exists>s rs'. r = Inr (s, rs') \<and> int (length (tokens s)) = moves"
    if "unit_draws rs" "0 \<le> moves" "generateCustom3x3Scramble moves difficulty rs = Some r" for r
    using psafe_result [OF generateCustom3x3_safe [OF a] that(1,3)] that(2) by auto
  moreover have "\<exists>s rs'. generateCustom3x3Scramble moves difficulty rs = Some (Inr (s, rs'))
              \<and> int (length (tokens s)) = moves"
    if "unit_draws rs" "0 \<le> moves" "fair (length faces) rs"
    using psafe_pdefined [OF generateCustom3x3_safe [OF a, of moves]
        generateCustom3x3_defined [OF a, of moves] that(1,3)] that(2)
    by auto
  ultimately show ?thesis unfolding a by simp
qed

theorem custom3x3_loop_ends_move_count_witness:
  "(\<exists>face\<in>set (fst (custom3x3_alphabet ''hard'')). \<not> again3x3 ''M'' ''R'' face)
   \<and> unit_draws (ramp 9) \<and> (0::int) \<le> 15
   \<and> fair (length (fst (custom3x3_alphabet ''hard''))) (ramp 9)
   \<and> (\<exists>s rs'. generateCustom3x3Scramble 15 ''hard'' (ramp 9) = Some (Inr (s, rs'))
              \<and> int (length (tokens s)) = 15)"
proof -
  have u: "unit_draws (ramp 9)" and f: "fair 9 (ramp 9)" by (simp_all add: ramp_unit_fair)
  have l: "length (fst (custom3x3_alphabet ''hard'')) = 9"
    by (simp add: custom3x3_alphabet_def)
  from custom3x3_loop_ends_move_count [of "''hard''" "''M''" "''R''" "ramp 9" 15] u f
  show ?thesis unfolding l by simp
qed

subsection \<open>The claims on dispatch, on empty arrays and on Pyraminx\<close>

lemma generateScramble_unknown:
  "cubeType \<notin> set labels \<Longrightarrow> generateScramble cubeType = generate3x3Scramble"
  by (simp add: generateScramble_def labels_def)

lemma generateCustomScramble_unknown:
  "cubeType \<notin> set labels \<Longrightarrow>
   generateCustomScramble cubeType moves difficulty =
     generateCustom3x3Scramble (or_default moves 20) (or_medium difficulty)"
  by (rule ext) (simp add: generateCustomScramble_def labels_def or_medium_def)

lemma generateCustomScramble_3x3:
  "generateCustomScramble ''3x3'' moves difficulty =
     generateCustom3x3Scramble (or_default moves 20) (or_medium difficulty)"
  by (rule ext) (simp add: generateCustomScramble_def or_medium_def)

lemma generateCustomScramble_2x2:
  "generateCustomScramble ''2x2'' moves difficulty =
     generateCustom2x2Scramble (or_default moves 10) (or_medium difficulty)"
  by (rule ext) (simp add: generateCustomScramble_def or_medium_def)

lemma generateCustom3x3_none:
  "moves \<le> 0 \<Longrightarrow> generateCustom3x3Scramble moves difficulty rs = Some (Inr ('''', rs))"
  by (cases "custom3x3_alphabet difficulty")
    (simp add: generateCustom3x3Scramble_def finish_def custom_start_def)

lemma hard_alphabet:
  "custom3x3_alphabet ''hard'' =
     ([''R'', ''L'', ''U'', ''D'', ''F'', ''B'', ''M'', ''E'', ''S''],
      ['''', prime, ''2'', ''w'', ''w'' @ prime, ''w2''])"
  by (simp add: custom3x3_alphabet_def)

lemma medium_alphabet:
  "custom3x3_alphabet ''medium'' = ([''R'', ''L'', ''U'', ''D'', ''F'', ''B''], ['''', prime, ''2''])"
  by (simp add: custom3x3_alphabet_def)

lemma unknown_type: "''unknown-type'' \<notin> set labels"
  by (simp add: labels_def)

text \<open>
  Claim C8, as stated: for a type outside the seven labels \<open>generateCustomScramble(s, m, d)\<close>
  returns what the custom 3x3 generator returns for \<open>(m, d)\<close>. For \<open>m = 0\<close> the dispatcher
  passes 20: the custom 3x3 generator called with 0 returns the empty string, the dispatcher
  returns 20 tokens.
\<close>

theorem unknown_type_zero_moves_counterexample:
  "generateCustom3x3Scramble 0 ''medium'' (ramp 6) = Some (Inr ('''', ramp 6))
   \<and> (\<exists>s rs'. generateCustomScramble ''unknown-type'' (Some 0) (Some ''medium'') (ramp 6)
                  = Some (Inr (s, rs'))
        \<and> length (tokens s) = 20 \<and> s \<noteq> '''')
   \<and> generateCustomScramble ''unknown-type'' (Some 0) (Some ''medium'') (ramp 6)
       \<noteq> generateCustom3x3Scramble 0 ''medium'' (ramp 6)"
proof -
  have u: "unit_draws (ramp 6)" and f: "fair 6 (ramp 6)" by (simp_all add: ramp_unit_fair)
  have z: "generateCustom3x3Scramble 0 ''medium'' (ramp 6) = Some (Inr ('''', ramp 6))"
    by (simp add: generateCustom3x3_none)
  have eq: "generateCustomScramble ''unknown-type'' (Some 0) (Some ''medium'')
      = generateCustom3x3Scramble 20 ''medium''"
    by (simp add: generateCustomScramble_unknown [OF unknown_type] or_default_def or_medium_def)
  have l6: "length [''R'', ''L'', ''U'', ''D'', ''F'', ''B''] = 6" by simp
  have f': "fair (length [''R'', ''L'', ''U'', ''D'', ''F'', ''B'']) (ramp 6)"
    unfolding l6 by (rule f)
  from psafe_pdefined [OF generateCustom3x3_safe [OF medium_alphabet, of 20]
      generateCustom3x3_defined [OF medium_alphabet, of 20] u f']
  obtain s rs' where run: "generateCustom3x3Scramble 20 ''medium'' (ramp 6) = Some (Inr (s, rs'))"
    and len: "length (tokens s) = 20"
    by auto
  from len have ne: "s \<noteq> ''''" by (auto simp: tokens_def)
  from run len ne z show ?thesis unfolding eq by auto
qed

text \<open>
  Claim C8, amended: for every string outside the seven labels \<open>generateScramble\<close> is the
  standard 3x3 generator, which on every stream of draws from the unit interval returns 20
  tokens of the 3x3 shape and no error; and \<open>generateCustomScramble(s, m, d)\<close> is the custom
  3x3 generator for \<open>(m, d)\<close> when \<open>m\<close> is a number other than 0, for \<open>(20, d)\<close> when \<open>m\<close> is
  0 or absent, with \<open>d\<close> read as medium when absent. It raises no error, and
  \<open>generateCustomScramble("unknown-type", 12, "hard")\<close> returns, whenever it returns and at
  least on every stream fair for the nine faces, 12 tokens each made of a face and a modifier
  of the hard alphabet.
\<close>

theorem unknown_type_falls_back_to_3x3:
  assumes "cubeType \<notin> set labels" and "unit_draws rs"
  shows "generateScramble cubeType rs = generate3x3Scramble rs
       \<and> (\<exists>s rs'. generateScramble cubeType rs = Inr (s, rs') \<and> shape3x3 (tokens s))
       \<and> generateCustomScramble cubeType moves difficulty rs
           = generateCustom3x3Scramble
               (case moves of None \<Rightarrow> 20 | Some m \<Rightarrow> if m = 0 then 20 else m)
               (case difficulty of None \<Rightarrow> ''medium'' | Some d \<Rightarrow> d) rs
       \<and> (\<forall>e. generateCustomScramble cubeType moves difficulty rs \<noteq> Some (Inl e))
       \<and> (\<forall>r. generateCustomScramble ''unknown-type'' (Some 12) (Some ''hard'') rs = Some r \<longrightarrow>
            (\<exists>s rs'. r = Inr (s, rs') \<and> length (tokens s) = 12 \<and>
               list_all (over_alphabet [''R'', ''L'', ''U'', ''D'', ''F'', ''B'', ''M'', ''E'', ''S'']
                 ['''', prime, ''2'', ''w'', ''w'' @ prime, ''w2'']) (tokens s)))
       \<and> (fair 9 rs \<longrightarrow>
            (\<exists>s rs'. generateCustomScramble ''unknown-type'' (Some 12) (Some ''hard'') rs
                        = Some (Inr (s, rs'))
               \<and> length (tokens s) = 12 \<and>
               list_all (over_alphabet [''R'', ''L'', ''U'', ''D'', ''F'', ''B'', ''M'', ''E'', ''S'']
                 ['''', prime, ''2'', ''w'', ''w'' @ prime, ''w2'']) (tokens s)))"
proof -
  note g = generateScramble_unknown [OF assms(1)]
  note c = generateCustomScramble_unknown [OF assms(1), of moves difficulty]
  have h: "generateCustomScramble ''unknown-type'' (Some 12) (Some ''hard'')
      = generateCustom3x3Scramble 12 ''hard''"
    by (simp add: generateCustomScramble_unknown [OF unknown_type] or_default_def or_medium_def)
  note hs = generateCustom3x3_safe [OF hard_alphabet, of 12]
  note hd = generateCustom3x3_defined [OF hard_alphabet, of 12]
  have 1: "generateScramble cubeType rs = generate3x3Scramble rs" by (simp add: g)
  from succeedsD [OF generate3x3_succeeds assms(2)]
  have 2: "\<exists>s rs'. generateScramble cubeType rs = Inr (s, rs') \<and> shape3x3 (tokens s)"
    unfolding g by blast
  have 3: "generateCustomScramble cubeType moves difficulty rs
           = generateCustom3x3Scramble
               (case moves of None \<Rightarrow> 20 | Some m \<Rightarrow> if m = 0 then 20 else m)
               (case difficulty of None \<Rightarrow> ''medium'' | Some d \<Rightarrow> d) rs"
    by (simp add: c or_default_def or_medium_def)
  obtain faces modifiers where a: "custom3x3_alphabet (or_medium difficulty) = (faces, modifiers)"
    by (cases "custom3x3_alphabet (or_medium difficulty)")
  have 4: "generateCustomScramble cubeType moves difficulty rs \<noteq> Some (Inl e)" for e
    using psafe_result [OF generateCustom3x3_safe [OF a, of "or_default moves 20"] assms(2)]
    unfolding c by blast
  have 5: "\<exists>s rs'. r = Inr (s, rs') \<and> length (tokens s) = 12 \<and>
               list_all (over_alphabet [''R'', ''L'', ''U'', ''D'', ''F'', ''B'', ''M'', ''E'', ''S'']
                 ['''', prime, ''2'', ''w'', ''w'' @ prime, ''w2'']) (tokens s)"
    if "generateCustomScramble ''unknown-type'' (Some 12) (Some ''hard'') rs = Some r" for r
    using psafe_result [OF hs assms(2) that [unfolded h]] by simp
  have 6: "\<exists>s rs'. generateCustomScramble ''unknown-type'' (Some 12) (Some ''hard'') rs
                        = Some (Inr (s, rs'))
               \<and> length (tokens s) = 12 \<and>
               list_all (over_alphabet [''R'', ''L'', ''U'', ''D'', ''F'', ''B'', ''M'', ''E'', ''S'']
                 ['''', prime, ''2'', ''w'', ''w'' @ prime, ''w2'']) (tokens s)"
    if "fair 9 rs"
  proof -
    have l9: "length [''R'', ''L'', ''U'', ''D'', ''F'', ''B'', ''M'', ''E'', ''S''] = 9" by simp
    have "fair (length [''R'', ''L'', ''U'', ''D'', ''F'', ''B'', ''M'', ''E'', ''S'']) rs"
      unfolding l9 by (rule that)
    from psafe_pdefined [OF hs hd assms(2) this] show ?thesis unfolding h by simp
  qed
  from 1 2 3 4 5 6 show ?thesis by blast
qed

theorem unknown_type_falls_back_to_3x3_witness:
  "''unknown-type'' \<notin> set labels \<and> unit_draws (ramp 9) \<and> fair 9 (ramp 9)
   \<and> generateScramble ''unknown-type'' (ramp 9) = generate3x3Scramble (ramp 9)
   \<and> (\<exists>s rs'. generateScramble ''unknown-type'' (ramp 9) = Inr (s, rs') \<and> shape3x3 (tokens s))
   \<and> generateCustomScramble ''unknown-type'' (Some 12) (Some ''hard'') (ramp 9)
       = generateCustom3x3Scramble 12 ''hard'' (ramp 9)
   \<and> (\<exists>s rs'. generateCustomScramble ''unknown-type'' (Some 12) (Some ''hard'') (ramp 9)
                  = Some (Inr (s, rs'))
         \<and> length (tokens s) = 12 \<and>
         list_all (over_alphabet [''R'', ''L'', ''U'', ''D'', ''F'', ''B'', ''M'', ''E'', ''S'']
           ['''', prime, ''2'', ''w'', ''w'' @ prime, ''w2'']) (tokens s))"
proof -
  have u: "unit_draws (ramp 9)" and f: "fair 9 (ramp 9)" by (simp_all add: ramp_unit_fair)
  note t = unknown_type_falls_back_to_3x3 [OF unknown_type u, of "Some 12" "Some ''hard''"]
  from t have 1: "generateScramble ''unknown-type'' (ramp 9) = generate3x3Scramble (ramp 9)"
    by (rule conjunct1)
  from t have 2: "\<exists>s rs'. generateScramble ''unknown-type'' (ramp 9) = Inr (s, rs') \<and> shape3x3 (tokens s)"
    by (elim conjE)
  from t have 3: "generateCustomScramble ''unknown-type'' (Some 12) (Some ''hard'') (ramp 9)
       = generateCustom3x3Scramble 12 ''hard'' (ramp 9)"
    by (elim conjE) simp
  from t f have 4: "\<exists>s rs'. generateCustomScramble ''unknown-type'' (Some 12) (Some ''hard'') (ramp 9)
                  = Some (Inr (s, rs'))
         \<and> length (tokens s) = 12 \<and>
         list_all (over_alphabet [''R'', ''L'', ''U'', ''D'', ''F'', ''B'', ''M'', ''E'', ''S'']
           ['''', prime, ''2'', ''w'', ''w'' @ prime, ''w2'']) (tokens s)"
    by (elim conjE) (erule (1) mp)
  from unknown_type u f 1 2 3 4 show ?thesis by (intro conjI)
qed

text \<open>
  The 3x3 call with a count of 0 on the stream of zeros: the first move is R, and the second
  move draws R again for ever.
\<close>

lemma custom3x3_zero_moves_stuck:
  "generateCustomScramble ''3x3'' (Some 0) (Some ''medium'') (sconst 0) = None"
proof -
  let ?faces = "[''R'', ''L'', ''U'', ''D'', ''F'', ''B'']"
  have "\<not> again3x3 '''' '''' ''R''" by (simp add: again3x3_R)
  then have first: "doWhile ?faces (again3x3 '''' '''') (sconst 0) = Some (Inr (''R'', sconst 0))"
    by (subst doWhile.simps)
      (simp add: getRandomElement_def bindR_def Math_random_def returnR_def)
  have "again3x3 ''R'' ''R'' (?faces ! 0)" by (simp add: again3x3_R)
  then have second: "doWhile ?faces (again3x3 ''R'' ''R'') (sconst 0) = None"
    by (intro doWhile_stuck) simp_all
  have eq: "generateCustomScramble ''3x3'' (Some 0) (Some ''medium'')
      = generateCustom3x3Scramble 20 ''medium''"
    by (simp add: generateCustomScramble_3x3 or_default_def or_medium_def)
  show ?thesis
    unfolding eq
    by (simp add: generateCustom3x3Scramble_def medium_alphabet finish_def custom3x3_step_def
      custom_start_def first second getRandomElement_def bindR_def Math_random_def returnR_def
      throwR_def numeral_eq_Suc)
qed

text \<open>
  Claim C10, as stated: \<open>generateCustomScramble("3x3", 0, d)\<close> returns 20 tokens. On the
  stream of zeros, whose draws all lie in the unit interval, the call runs the custom 3x3
  generator with 20 and never returns: it returns no string at all, of 20 tokens or other.
\<close>

theorem zero_moves_never_returns_counterexample:
  "unit_draws (sconst 0)
   \<and> generateCustomScramble ''3x3'' (Some 0) (Some ''medium'') (sconst 0) = None
   \<and> (\<nexists>s rs'. generateCustomScramble ''3x3'' (Some 0) (Some ''medium'') (sconst 0)
                  = Some (Inr (s, rs')) \<and> length (tokens s) = 20)"
  by (simp add: unit_draws_sconst custom3x3_zero_moves_stuck)

text \<open>
  Claim C10, amended. \<open>generateCustomScramble\<close> reads a move count of 0 as an absent one:
  for 3x3 it runs the custom 3x3 generator with 20, so that it returns 20 tokens whenever it
  returns, and it returns on every stream of draws from the unit interval that is fair for
  the faces of the difficulty; for 2x2 it does what it does for a count of 10. A negative
  count is passed on as it is: the loop of the custom 3x3 generator runs no step, no number is
  drawn and the empty string is returned.
\<close>

theorem zero_moves_default_negative_empty:
  "generateCustomScramble ''3x3'' (Some 0) difficulty rs
     = generateCustomScramble ''3x3'' None difficulty rs
   \<and> generateCustomScramble ''3x3'' (Some 0) difficulty rs
     = generateCustom3x3Scramble 20 (case difficulty of None \<Rightarrow> ''medium'' | Some d \<Rightarrow> d) rs
   \<and> (unit_draws rs \<longrightarrow>
        (\<forall>r. generateCustomScramble ''3x3'' (Some 0) difficulty rs = Some r \<longrightarrow>
           (\<exists>s rs'. r = Inr (s, rs') \<and> length (tokens s) = 20))
      \<and> (fair (length (fst (custom3x3_alphabet
               (case difficulty of None \<Rightarrow> ''medium'' | Some d \<Rightarrow> d)))) rs \<longrightarrow>
           (\<exists>s rs'. generateCustomScramble ''3x3'' (Some 0) difficulty rs = Some (Inr (s, rs'))
              \<and> length (tokens s) = 20)))
   \<and> generateCustomScramble ''2x2'' (Some 0) difficulty rs
     = generateCustomScramble ''2x2'' (Some 10) difficulty rs
   \<and> (moves < 0 \<longrightarrow>
        generateCustomScramble ''3x3'' (Some moves) difficulty rs
          = generateCustom3x3Scramble moves
              (case difficulty of None \<Rightarrow> ''medium'' | Some d \<Rightarrow> d) rs
      \<and> generateCustomScramble ''3x3'' (Some moves) difficulty rs = Some (Inr ('''', rs)))"
proof -
  let ?d = "case difficulty of None \<Rightarrow> ''medium'' | Some d \<Rightarrow> d"
  have d: "or_medium difficulty = ?d" by (simp add: or_medium_def)
  obtain faces modifiers where a: "custom3x3_alphabet ?d = (faces, modifiers)"
    by (cases "custom3x3_alphabet ?d")
  have z: "generateCustomScramble ''3x3'' (Some 0) difficulty = generateCustom3x3Scramble 20 ?d"
    by (simp add: generateCustomScramble_3x3 or_default_def d)
  have 1: "generateCustomScramble ''3x3'' (Some 0) difficulty rs
     = generateCustomScramble ''3x3'' None difficulty rs"
    by (simp add: generateCustomScramble_3x3 or_default_def)
  have 2: "generateCustomScramble ''3x3'' (Some 0) difficulty rs = generateCustom3x3Scramble 20 ?d rs"
    by (simp add: z)
  have 3: "\<exists>s rs'. r = Inr (s, rs') \<and> length (tokens s) = 20"
    if "unit_draws rs" "generateCustomScramble ''3x3'' (Some 0) difficulty rs = Some r" for r
    using psafe_result [OF generateCustom3x3_safe [OF a, of 20] that(1) that(2) [unfolded z]]
    by auto
  have 4: "\<exists>s rs'. generateCustomScramble ''3x3'' (Some 0) difficulty rs = Some (Inr (s, rs'))
              \<and> length (tokens s) = 20"
    if "unit_draws rs" "fair (length faces) rs"
    using psafe_pdefined [OF generateCustom3x3_safe [OF a, of 20]
        generateCustom3x3_defined [OF a, of 20] that]
    unfolding z by auto
  have 5: "generateCustomScramble ''2x2'' (Some 0) difficulty rs
     = generateCustomScramble ''2x2'' (Some 10) difficulty rs"
    by (simp add: generateCustomScramble_2x2 or_default_def)
  have 6: "generateCustomScramble ''3x3'' (Some moves) difficulty rs
          = generateCustom3x3Scramble moves ?d rs
      \<and> generateCustomScramble ''3x3'' (Some moves) difficulty rs = Some (Inr ('''', rs))"
    if "moves < 0"
    using that by (simp add: generateCustomScramble_3x3 or_default_def d generateCustom3x3_none)
  have l: "length (fst (custom3x3_alphabet ?d)) = length faces" by (simp add: a)
  from 1 2 3 4 5 6 show ?thesis unfolding l by blast
qed

theorem zero_moves_default_negative_empty_witness:
  "unit_draws (ramp 6)
   \<and> fair (length (fst (custom3x3_alphabet ''medium''))) (ramp 6)
   \<and> (\<exists>s rs'. generateCustomScramble ''3x3'' (Some 0) (Some ''medium'') (ramp 6)
                  = Some (Inr (s, rs'))
         \<and> length (tokens s) = 20)
   \<and> (- 3 :: int) < 0
   \<and> generateCustomScramble ''3x3'' (Some (- 3)) (Some ''medium'') (ramp 6)
       = Some (Inr ('''', ramp 6))"
proof -
  have u: "unit_draws (ramp 6)" and f: "fair 6 (ramp 6)" by (simp_all add: ramp_unit_fair)
  have l: "length (fst (custom3x3_alphabet ''medium'')) = 6" by (simp add: medium_alphabet)
  have n: "(- 3 :: int) < 0" by simp
  note t = zero_moves_default_negative_empty [of "Some ''medium''" "ramp 6" "- 3",
      unfolded option.case l]
  from t u f n show ?thesis unfolding l by blast
qed

text \<open>
  Claim C6. In the model \<open>getRandomElement\<close> gives \<open>UndefinedElement\<close> exactly when its array
  is empty, and a generator stops with that value at the first such call. On every stream of
  draws from the unit interval, for every type, move count and difficulty, neither dispatcher
  ends in an error: no call of \<open>getRandomElement\<close> receives an empty array, be it in the
  fallback for an empty candidate list, on the bias paths, in the Pyraminx tips or in the
  choice of the Clock pin to flip; nor is \<open>TypeError\<close> raised.
\<close>

theorem getRandomElement_never_empty:
  assumes "unit_draws rs"
  shows "(getRandomElement array rs = Inl UndefinedElement \<longleftrightarrow> array = [])
       \<and> (\<forall>e. generateScramble cubeType rs \<noteq> Inl e)
       \<and> (\<forall>e. generateCustomScramble cubeType moves difficulty rs \<noteq> Some (Inl e))"
proof -
  have T: "succeeds m (\<lambda>_. True) \<Longrightarrow> m rs \<noteq> Inl e" for m :: "string gen" and e
    using succeedsD [OF _ assms, of m "\<lambda>_. True"] by auto
  have std: "succeeds generate3x3Scramble (\<lambda>_. True)" "succeeds generate2x2Scramble (\<lambda>_. True)"
    "succeeds generatePyraminxScramble (\<lambda>_. True)" "succeeds generateSkewbScramble (\<lambda>_. True)"
    "succeeds generateClockScramble (\<lambda>_. True)"
    by (rule succeeds_True [OF generate3x3_succeeds] succeeds_True [OF generate2x2_succeeds]
        generatePyraminx_succeeds generateSkewb_succeeds succeeds_True [OF clock_succeeds])+
  have 1: "getRandomElement array rs = Inl UndefinedElement \<longleftrightarrow> array = []"
  proof (cases "array = []")
    case True
    then show ?thesis
      by (simp add: getRandomElement_def bindR_def Math_random_def throwR_def)
  next
    case False
    with getRandomElement_eq(1) [OF assms False] show ?thesis by simp
  qed
  have "succeeds (generateScramble cubeType) (\<lambda>_. True)"
    unfolding generateScramble_def generate3x3BLDScramble_def generate3x3OHScramble_def
    by (simp add: std)
  then have 2: "generateScramble cubeType rs \<noteq> Inl e" for e by (rule T)
  obtain faces modifiers
    where a: "custom3x3_alphabet (or_medium difficulty) = (faces, modifiers)"
    by (cases "custom3x3_alphabet (or_medium difficulty)")
  obtain n mods
    where p: "custom2x2_params (or_default moves 10) (or_medium difficulty) = (n, mods)"
    by (cases "custom2x2_params (or_default moves 10) (or_medium difficulty)")
  have c3: "generateCustom3x3Scramble (or_default moves 20) (or_medium difficulty) rs \<noteq> Some (Inl e)"
    for e
    using psafe_result [OF generateCustom3x3_safe [OF a, of "or_default moves 20"] assms] by blast
  have c2: "generateCustom2x2Scramble (or_default moves 10) (or_medium difficulty) rs \<noteq> Some (Inl e)"
    for e
    using psafe_result [OF generateCustom2x2_safe [OF p] assms] by blast
  have 3: "generateCustomScramble cubeType moves difficulty rs \<noteq> Some (Inl e)" for e
    using c3 [of e] c2 [of e] T [OF std(3), of e] T [OF std(4), of e] T [OF std(5), of e]
    by (simp add: generateCustomScramble_def or_medium_def Let_def)
  from 1 2 3 show ?thesis by blast
qed

theorem getRandomElement_never_empty_witness:
  "unit_draws (sconst (1 / 2))
   \<and> getRandomElement [''u'', ''d''] (sconst (1 / 2)) \<noteq> Inl UndefinedElement
   \<and> (\<forall>e. generateScramble ''Clock'' (sconst (1 / 2)) \<noteq> Inl e)
   \<and> (\<forall>e. generateCustomScramble ''Pyraminx'' (Some 7) (Some ''hard'') (sconst (1 / 2)) \<noteq> Some (Inl e))"
proof -
  have u: "unit_draws (sconst (1 / 2))" by (simp add: unit_draws_sconst)
  from getRandomElement_never_empty [OF u, of "[''u'', ''d'']" "''Clock''" "Some 7" "Some ''hard''"]
    getRandomElement_never_empty [OF u, of "[] :: string list" "''Pyraminx''" "Some 7" "Some ''hard''"] u
  show ?thesis by simp
qed

text \<open>
  Claim C4. In the base part of a Pyraminx scramble no token should repeat the face of the
  token before it, and after two tokens whose faces are opposite in the map R-L, U-B the next
  token should not return to the first of them. The single-move selection keeps to this; the
  injected pattern is checked against the last move only. On the stream below the pattern
  R U is followed by the single move B and the pattern U B: the tokens at positions 1, 2, 3
  are U, B, U.
\<close>

theorem pyraminx_pattern_reopens_cancellation:
  "generateScramble ''Pyraminx''
     (0 ## 1 / 2 ## 0 ## 0 ## 2 / 3 ## 9 / 10 ## 1 / 4 ## 0 ## 0 ## 0 ## 9 / 10 ## 0 ## 0 ##
      9 / 10 ## 0 ## 9 / 10 ## sconst 0)
     = Inr (''R U B U B R L U'', sconst 0)
   \<and> map face_letter (tokens ''R U B U B R L U'')
       = [''R'', ''U'', ''B'', ''U'', ''B'', ''R'', ''L'', ''U'']
   \<and> face_letter (tokens ''R U B U B R L U'' ! 3) = face_letter (tokens ''R U B U B R L U'' ! 1)"
  by (simp add: pyraminx_cancel tokens_def face_letter_def)

end
